theory Spec2Isabelle
  imports Complex_Main "HOL-Library.Log_Nat"
begin

section \<open>JavaScript numbers\<close>

text \<open>
  Every quantity of the calculator is a TypeScript \<open>number\<close>, an IEEE 754 binary64
  value. A value is modelled as a rational (the finite doubles), one of the two
  infinities, or NaN. The sign of zero is not modelled: no divisor of the program can
  be a negative zero (the divisors are \<open>totalClasses\<close>, \<open>100 - targetPercentage\<close>,
  \<open>targetPercentage / 100\<close> and \<open>totalClasses + |classes|\<close> on integer inputs), and
  comparisons do not see the sign of zero.
\<close>

datatype number = Finite rat | PosInf | NegInf | NaN

text \<open>Rounding to the nearest integer, ties to the even one.\<close>

definition round_half_even :: "rat \<Rightarrow> int" where
  "round_half_even x =
     (let f = \<lfloor>x\<rfloor>; d = x - of_int f
      in if d < 1 / 2 then f
         else if 1 / 2 < d then f + 1
         else if even f then f else f + 1)"

text \<open>The binary exponent of a positive rational: \<open>2 powi ilog2 x \<le> x < 2 powi (ilog2 x + 1)\<close>.\<close>

definition ilog2 :: "rat \<Rightarrow> int" where
  "ilog2 x = (if 1 \<le> x then bitlen \<lfloor>x\<rfloor> - 1 else - bitlen (\<lceil>1 / x\<rceil> - 1))"

text \<open>
  The spacing of the binary64 numbers around \<open>x\<close>: 53 significant bits, and an exponent
  no smaller than \<open>-1022\<close> (below it the spacing stays \<open>2 powi -1074\<close>: the subnormal
  numbers).
\<close>

definition ulp :: "rat \<Rightarrow> rat" where
  "ulp x = 2 powi (max (ilog2 \<bar>x\<bar>) (- 1022) - 52)"

text \<open>The multiple of the spacing nearest to \<open>x\<close>, ties to the even multiple.\<close>

definition nearest :: "rat \<Rightarrow> rat" where
  "nearest x = of_int (round_half_even (x / ulp x)) * ulp x"

text \<open>
  \<open>round64 x\<close> is the binary64 value of the exact result \<open>x\<close> of an operation, in the
  default rounding mode (to nearest, ties to even): an infinity when the rounded value
  reaches \<open>2 powi 1024\<close>.
\<close>

definition round64 :: "rat \<Rightarrow> number" where
  "round64 x =
     (if x = 0 then Finite 0
      else if 2 powi 1024 \<le> \<bar>nearest x\<bar> then (if 0 < x then PosInf else NegInf)
      else Finite (nearest x))"

text \<open>An integer held in a \<open>number\<close> (the inputs come from \<open>parseInt(value) || 0\<close>).\<close>

definition num :: "int \<Rightarrow> number" where
  "num n = Finite (of_int n)"


fun js_sub :: "number \<Rightarrow> number \<Rightarrow> number" where
  "js_sub (Finite a) (Finite b) = round64 (a - b)"
| "js_sub NaN _ = NaN"
| "js_sub _ NaN = NaN"
| "js_sub PosInf PosInf = NaN"
| "js_sub NegInf NegInf = NaN"
| "js_sub PosInf _ = PosInf"
| "js_sub NegInf _ = NegInf"
| "js_sub (Finite a) PosInf = NegInf"
| "js_sub (Finite a) NegInf = PosInf"

text \<open>The sign of a number: \<open>1\<close>, \<open>0\<close> or \<open>-1\<close>; NaN has none.\<close>

fun js_sign :: "number \<Rightarrow> int option" where
  "js_sign (Finite a) = Some (if 0 < a then 1 else if a < 0 then - 1 else 0)"
| "js_sign PosInf = Some 1"
| "js_sign NegInf = Some (- 1)"
| "js_sign NaN = None"

definition signed_inf :: "int \<Rightarrow> number" where
  "signed_inf s = (if 0 < s then PosInf else if s < 0 then NegInf else NaN)"

fun js_mul :: "number \<Rightarrow> number \<Rightarrow> number" where
  "js_mul (Finite a) (Finite b) = round64 (a * b)"
| "js_mul x y =
     (case (js_sign x, js_sign y) of
        (Some s, Some s') \<Rightarrow> signed_inf (s * s')
      | _ \<Rightarrow> NaN)"

text \<open>
  Division. A zero divisor is a positive zero here, so a non-zero dividend gives the
  infinity of its own sign and \<open>0 / 0\<close> is NaN.
\<close>

fun js_div :: "number \<Rightarrow> number \<Rightarrow> number" where
  "js_div (Finite a) (Finite b) =
     (if b = 0 then (if 0 < a then PosInf else if a < 0 then NegInf else NaN)
      else round64 (a / b))"
| "js_div NaN _ = NaN"
| "js_div _ NaN = NaN"
| "js_div (Finite a) _ = Finite 0"
| "js_div PosInf (Finite b) = (if 0 \<le> b then PosInf else NegInf)"
| "js_div NegInf (Finite b) = (if 0 \<le> b then NegInf else PosInf)"
| "js_div _ _ = NaN"

text \<open>The comparison \<open>x >= y\<close>: false as soon as one side is NaN.\<close>

fun js_ge :: "number \<Rightarrow> number \<Rightarrow> bool" where
  "js_ge NaN _ = False"
| "js_ge _ NaN = False"
| "js_ge PosInf _ = True"
| "js_ge _ NegInf = True"
| "js_ge (Finite a) (Finite b) = (b \<le> a)"
| "js_ge _ _ = False"

text \<open>The comparison \<open>x > y\<close>.\<close>

fun js_gt :: "number \<Rightarrow> number \<Rightarrow> bool" where
  "js_gt NaN _ = False"
| "js_gt _ NaN = False"
| "js_gt (Finite a) (Finite b) = (b < a)"
| "js_gt PosInf PosInf = False"
| "js_gt NegInf _ = False"
| "js_gt PosInf _ = True"
| "js_gt (Finite a) NegInf = True"
| "js_gt (Finite a) PosInf = False"

text \<open>The comparison \<open>x < y\<close>.\<close>

definition js_lt :: "number \<Rightarrow> number \<Rightarrow> bool" where
  "js_lt x y = js_gt y x"

fun Math_ceil :: "number \<Rightarrow> number" where
  "Math_ceil (Finite a) = Finite (of_int \<lceil>a\<rceil>)"
| "Math_ceil x = x"

fun Math_floor :: "number \<Rightarrow> number" where
  "Math_floor (Finite a) = Finite (of_int \<lfloor>a\<rfloor>)"
| "Math_floor x = x"


text \<open>\<open>Math.max\<close> is NaN as soon as one argument is.\<close>

fun Math_max :: "number \<Rightarrow> number \<Rightarrow> number" where
  "Math_max NaN _ = NaN"
| "Math_max _ NaN = NaN"
| "Math_max x y = (if js_ge x y then x else y)"

section \<open>The calculator (\<open>AttendanceCalculator.tsx\<close>)\<close>

record AttendanceData =
  totalClasses :: int
  attendedClasses :: int
  targetPercentage :: int

datatype status = Safe | Warning | Danger

text \<open>
  The message is one of three templates; the values it embeds are kept, their rendering
  as text (\<open>toFixed(1)\<close>) is not modelled.
\<close>

datatype message =
    GreatAboveTarget number number
  | CloseToMinimum number int
  | Critical number

record AttendanceResult =
  currentPercentage :: number
  status :: status
  classesToAttend :: number
  classesToBunk :: number
  message :: message

datatype invalid_input = TotalNotPositive | AttendedExceedsTotal

text \<open>
  The body of \<open>calculateAttendance\<close> from the reading of \<open>data\<close> to the record handed to
  \<open>setResult\<close>; an early \<open>return\<close> after an "Invalid Input" toast is \<open>Inl\<close>.
\<close>

definition compute :: "AttendanceData \<Rightarrow> invalid_input + AttendanceResult" where
  "compute d =
     (let t = totalClasses d; a = attendedClasses d; T = targetPercentage d
      in if t \<le> 0 then Inl TotalNotPositive
         else if a > t then Inl AttendedExceedsTotal
         else
           let cur = js_mul (js_div (num a) (num t)) (num 100);
               toAttend = Math_max (num 0) (Math_ceil
                 (js_div (js_sub (js_mul (num T) (num t)) (js_mul (num 100) (num a)))
                         (js_sub (num 100) (num T))));
               maxMissableClasses = Math_floor
                 (js_div (js_sub (num a) (js_mul (js_div (num T) (num 100)) (num t)))
                         (js_div (num T) (num 100)));
               toBunk = Math_max (num 0) maxMissableClasses
           in Inr
             (if js_ge cur (num T) then
                \<lparr>currentPercentage = cur, status = Safe, classesToAttend = toAttend,
                 classesToBunk = toBunk,
                 message = GreatAboveTarget (js_sub cur (num T)) toBunk\<rparr>
              else if js_ge cur (js_sub (num T) (num 5)) then
                \<lparr>currentPercentage = cur, status = Warning, classesToAttend = toAttend,
                 classesToBunk = toBunk, message = CloseToMinimum toAttend T\<rparr>
              else
                \<lparr>currentPercentage = cur, status = Danger, classesToAttend = toAttend,
                 classesToBunk = toBunk, message = Critical toAttend\<rparr>))"

text \<open>The component's state: the form data, the stored result, and the toasts shown.\<close>

datatype toast =
    InvalidInputToast invalid_input
  | CalculationCompleteToast number
  | CalculatorResetToast

record calculator =
  data :: AttendanceData
  result :: "AttendanceResult option"
  isExportDialogOpen :: bool
  toasts :: "toast list"

definition calculateAttendance :: "calculator \<Rightarrow> calculator" where
  "calculateAttendance s =
     (case compute (data s) of
        Inl e \<Rightarrow> s\<lparr>toasts := toasts s @ [InvalidInputToast e]\<rparr>
      | Inr r \<Rightarrow> s\<lparr>result := Some r,
                  toasts := toasts s @ [CalculationCompleteToast (currentPercentage r)]\<rparr>)"

definition resetCalculator :: "calculator \<Rightarrow> calculator" where
  "resetCalculator s =
     s\<lparr>data := \<lparr>totalClasses = 0, attendedClasses = 0, targetPercentage = 75\<rparr>,
       result := None,
       toasts := toasts s @ [CalculatorResetToast]\<rparr>"

section \<open>Future scenarios (\<open>AttendanceChart\<close>)\<close>






section \<open>Custom target insights (\<open>AttendanceInsights\<close>)\<close>

definition classesNeeded :: "AttendanceData \<Rightarrow> int \<Rightarrow> number" where
  "classesNeeded d target =
     Math_max (num 0) (Math_ceil
       (js_div (js_sub (js_mul (num target) (num (totalClasses d)))
                       (js_mul (num 100) (num (attendedClasses d))))
               (js_sub (num 100) (num target))))"

definition customTargets :: "AttendanceData \<Rightarrow> int list" where
  "customTargets d = filter (\<lambda>target. target > targetPercentage d) [80, 85, 90, 95]"

datatype insight_type = Info | Success

record target_insight =
  insight_target :: int
  insight_classes :: number
  insight_type :: insight_type

definition targetInsights :: "AttendanceData \<Rightarrow> target_insight list" where
  "targetInsights d = map
     (\<lambda>target. let n = classesNeeded d target
       in \<lparr>insight_target = target, insight_classes = n,
           insight_type = (if js_gt n (num 0) then Info else Success)\<rparr>)
     (take 2 (customTargets d))"

text \<open>
  The binary64 value of \<open>(a / t) * 100\<close> when neither operation leaves the finite
  numbers.
\<close>

definition percent :: "int \<Rightarrow> int \<Rightarrow> rat" where
  "percent a t = nearest (nearest (of_int a / of_int t) * 100)"

text \<open>
  The binary64 value of \<open>(a - (T / 100) * t) / (T / 100)\<close>, whose floor is
  \<open>maxMissableClasses\<close>, when no operation leaves the finite numbers.
\<close>

definition missable :: "int \<Rightarrow> int \<Rightarrow> int \<Rightarrow> rat" where
  "missable T t a =
     nearest (nearest (of_int a - nearest (nearest (of_int T / 100) * of_int t))
              / nearest (of_int T / 100))"

text \<open>
  The binary64 value of \<open>(T * t - 100 * a) / (100 - T)\<close>, whose ceiling is the number of
  classes to attend, when no operation leaves the finite numbers.
\<close>

definition attendable :: "int \<Rightarrow> int \<Rightarrow> int \<Rightarrow> rat" where
  "attendable T t a =
     nearest (nearest (nearest (of_int (T * t)) - nearest (of_int (100 * a))) / of_int (100 - T))"

section \<open>Properties of the rounding\<close>

lemma powi_neg: "0 \<le> k \<Longrightarrow> (2::rat) powi (- k) = 1 / 2 ^ nat k"
  by (cases "k = 0") (simp_all add: power_int_def field_simps)

lemma ilog2_ge1:
  assumes "1 \<le> x"
  shows "2 powi ilog2 x \<le> x \<and> x < 2 powi (ilog2 x + 1)"
proof -
  define n where "n = \<lfloor>x\<rfloor>"
  have n: "0 < n" using assms by (simp add: n_def)
  have b: "1 \<le> bitlen n" using n bitlen_eq_zero_iff[of n] bitlen_nonneg[of n] by linarith
  have il: "ilog2 x = bitlen n - 1" using assms by (simp add: ilog2_def n_def)
  from bitlen_bounds[OF n] have lo: "2 ^ nat (bitlen n - 1) \<le> n" and hi: "n < 2 ^ nat (bitlen n)" by auto
  have "(2::rat) powi (bitlen n - 1) = of_int (2 ^ nat (bitlen n - 1))"
    using b by (simp add: power_int_def)
  also have "\<dots> \<le> of_int n" using lo by (simp only: of_int_le_iff)
  also have "\<dots> \<le> x" by (simp add: n_def)
  finally have 1: "2 powi ilog2 x \<le> x" by (simp add: il)
  have "n + 1 \<le> 2 ^ nat (bitlen n)" using hi by simp
  then have "(of_int (n + 1) :: rat) \<le> of_int (2 ^ nat (bitlen n))" by (simp only: of_int_le_iff)
  moreover have "x < of_int (n + 1)" using floor_correct[of x] by (simp add: n_def)
  moreover have "(2::rat) powi (bitlen n - 1 + 1) = of_int (2 ^ nat (bitlen n))"
    using b by (simp add: power_int_def)
  ultimately have "x < 2 powi (ilog2 x + 1)" by (simp add: il)
  with 1 show ?thesis by simp
qed

lemma ilog2_lt1:
  assumes "0 < x" "x < 1"
  shows "2 powi ilog2 x \<le> x \<and> x < 2 powi (ilog2 x + 1)"
proof -
  define m where "m = \<lceil>1 / x\<rceil> - 1"
  have y: "1 < 1 / x" using assms by simp
  have m: "0 < m" using y by (simp add: m_def less_ceiling_iff)
  have b: "1 \<le> bitlen m" using m bitlen_eq_zero_iff[of m] bitlen_nonneg[of m] by linarith
  have il: "ilog2 x = - bitlen m" using assms by (simp add: ilog2_def m_def)
  from bitlen_bounds[OF m] have lo: "2 ^ nat (bitlen m - 1) \<le> m" and hi: "m < 2 ^ nat (bitlen m)" by auto
  have my: "of_int m < 1 / x" "1 / x \<le> of_int m + 1"
    unfolding m_def by (simp_all add: less_ceiling_iff ceiling_correct) 
  have "m + 1 \<le> 2 ^ nat (bitlen m)" using hi by simp
  then have "(of_int (m + 1) :: rat) \<le> of_int (2 ^ nat (bitlen m))" by (simp only: of_int_le_iff)
  then have "1 / x \<le> 2 ^ nat (bitlen m)" using my by simp
  then have "1 / 2 ^ nat (bitlen m) \<le> x" using assms
    by (simp add: field_simps)
  moreover have "(2::rat) powi (- bitlen m) = 1 / 2 ^ nat (bitlen m)"
    using b by (simp add: power_int_def field_simps)
  ultimately have 1: "2 powi ilog2 x \<le> x" by (simp add: il)
  have "(of_int (2 ^ nat (bitlen m - 1)) :: rat) \<le> of_int m" using lo by (simp only: of_int_le_iff)
  then have "(2::rat) ^ nat (bitlen m - 1) \<le> of_int m" by simp
  then have "2 ^ nat (bitlen m - 1) < 1 / x" using my by linarith
  then have "x < 1 / 2 ^ nat (bitlen m - 1)" using assms by (simp add: field_simps)
  moreover have "(2::rat) powi (- bitlen m + 1) = 1 / 2 ^ nat (bitlen m - 1)"
  proof -
    have "- bitlen m + 1 = - (bitlen m - 1)" by simp
    then show ?thesis using b powi_neg[of "bitlen m - 1"] by simp
  qed
  ultimately have "x < 2 powi (ilog2 x + 1)" by (simp add: il)
  with 1 show ?thesis by simp
qed

lemma ilog2_bounds:
  assumes "0 < x"
  shows "2 powi ilog2 x \<le> x" and "x < 2 powi (ilog2 x + 1)"
  using ilog2_ge1[of x] ilog2_lt1[of x] assms by (cases "1 \<le> x"; simp)+


lemma pow2_mono: "a \<le> b \<Longrightarrow> (2::rat) powi a \<le> 2 powi b"
  by (rule power_int_increasing) simp_all

lemma pow2_strict_mono: "a < b \<Longrightarrow> (2::rat) powi a < 2 powi b"
  by (rule power_int_strict_increasing) simp_all

lemma pow2_pos: "0 < (2::rat) powi a"
  by simp

lemma pow2_int: "0 \<le> k \<Longrightarrow> (2::rat) powi k = of_int (2 ^ nat k)"
  by (simp add: power_int_def)

lemma ilog2_unique:
  assumes "2 powi k \<le> x" "x < 2 powi (k + 1)"
  shows "ilog2 x = k"
proof -
  have x: "0 < x" using assms(1) pow2_pos[of k] by linarith
  note b = ilog2_bounds[OF x]
  have "\<not> ilog2 x < k"
  proof
    assume "ilog2 x < k"
    then have "ilog2 x + 1 \<le> k" by simp
    from pow2_mono[OF this] b(2) assms(1) show False by linarith
  qed
  moreover have "\<not> k < ilog2 x"
  proof
    assume "k < ilog2 x"
    then have "k + 1 \<le> ilog2 x" by simp
    from pow2_mono[OF this] b(1) assms(2) show False by linarith
  qed
  ultimately show ?thesis by simp
qed

lemma ilog2_mono:
  assumes "0 < x" "x \<le> y"
  shows "ilog2 x \<le> ilog2 y"
proof (rule ccontr)
  assume "\<not> ilog2 x \<le> ilog2 y"
  then have "ilog2 y + 1 \<le> ilog2 x" by simp
  from pow2_mono[OF this] ilog2_bounds(1)[OF assms(1)] ilog2_bounds(2)[of y] assms
  show False by linarith
qed

lemma rhe_int [simp]: "round_half_even (of_int k) = k"
  by (simp add: round_half_even_def)

lemma rhe_cases: "round_half_even y = \<lfloor>y\<rfloor> \<or> round_half_even y = \<lfloor>y\<rfloor> + 1"
  by (simp add: round_half_even_def Let_def)

lemma rhe_err: "\<bar>of_int (round_half_even y) - y\<bar> \<le> 1 / 2"
proof -
  have "of_int \<lfloor>y\<rfloor> \<le> y" "y < of_int \<lfloor>y\<rfloor> + 1" using floor_correct[of y] by auto
  then show ?thesis by (auto simp: round_half_even_def Let_def abs_le_iff)
qed

lemma rhe_mono:
  assumes "x \<le> y"
  shows "round_half_even x \<le> round_half_even y"
proof (cases "\<lfloor>x\<rfloor> = \<lfloor>y\<rfloor>")
  case True
  then show ?thesis using assms by (auto simp: round_half_even_def Let_def)
next
  case False
  then have "\<lfloor>x\<rfloor> + 1 \<le> \<lfloor>y\<rfloor>" using floor_mono[OF assms] by linarith
  then show ?thesis using rhe_cases[of x] rhe_cases[of y] by linarith
qed

lemma rhe_neg: "round_half_even (- y) = - round_half_even y"
proof (cases "y \<in> \<int>")
  case True
  then obtain k where "y = of_int k" by (auto elim: Ints_cases)
  then show ?thesis using rhe_int[of "- k"] by simp
next
  case False
  then have "y \<noteq> of_int \<lfloor>y\<rfloor>" by (metis Ints_of_int)
  then have fl: "\<lfloor>- y\<rfloor> = - \<lfloor>y\<rfloor> - 1" by (simp add: floor_minus ceiling_altdef)
  show ?thesis
    unfolding round_half_even_def Let_def fl by (auto simp: field_simps)
qed

lemma ulp_pos: "0 < ulp x"
  by (simp add: ulp_def)

lemma ulp_neg [simp]: "ulp (- x) = ulp x"
  by (simp add: ulp_def)

lemma nearest_neg: "nearest (- x) = - nearest x"
  by (simp add: nearest_def rhe_neg)

lemma nearest_0 [simp]: "nearest 0 = 0"
  by (simp add: nearest_def round_half_even_def)

lemma nearest_err: "\<bar>nearest x - x\<bar> \<le> ulp x / 2"
proof -
  have u: "0 < ulp x" by (rule ulp_pos)
  have "nearest x - x = (of_int (round_half_even (x / ulp x)) - x / ulp x) * ulp x"
    using u by (simp add: nearest_def field_simps)
  then have "\<bar>nearest x - x\<bar> = \<bar>of_int (round_half_even (x / ulp x)) - x / ulp x\<bar> * ulp x"
    using u by (simp add: abs_mult)
  also have "\<dots> \<le> (1 / 2) * ulp x"
    using rhe_err[of "x / ulp x"] u by (intro mult_right_mono) simp_all
  finally show ?thesis by simp
qed

lemma nearest_fix:
  assumes "x = of_int k * ulp x"
  shows "nearest x = x"
proof -
  have "x / ulp x = of_int k" using assms ulp_pos[of x] by (simp add: field_simps)
  then show ?thesis using assms by (simp add: nearest_def)
qed

lemma nearest_le_grid:
  assumes "x \<le> of_int k * ulp x"
  shows "nearest x \<le> of_int k * ulp x"
proof -
  have "x / ulp x \<le> of_int k" using assms ulp_pos[of x] by (simp add: field_simps)
  from rhe_mono[OF this] have "round_half_even (x / ulp x) \<le> k" by simp
  then have "(of_int (round_half_even (x / ulp x)) :: rat) \<le> of_int k" by (simp only: of_int_le_iff)
  then show ?thesis using ulp_pos[of x] by (simp add: nearest_def)
qed

lemma nearest_ge_grid:
  assumes "of_int k * ulp x \<le> x"
  shows "of_int k * ulp x \<le> nearest x"
proof -
  have "of_int k \<le> x / ulp x" using assms ulp_pos[of x] by (simp add: field_simps)
  from rhe_mono[OF this] have "k \<le> round_half_even (x / ulp x)" by simp
  then have "(of_int k :: rat) \<le> of_int (round_half_even (x / ulp x))" by (simp only: of_int_le_iff)
  then show ?thesis using ulp_pos[of x] by (simp add: nearest_def)
qed

lemma nearest_nonneg: "0 \<le> x \<Longrightarrow> 0 \<le> nearest x"
  using nearest_ge_grid[of 0 x] by simp

lemma nearest_nonpos: "x \<le> 0 \<Longrightarrow> nearest x \<le> 0"
  using nearest_le_grid[of x 0] by simp


lemma ulp_eq:
  assumes "2 powi k \<le> \<bar>x\<bar>" "\<bar>x\<bar> < 2 powi (k + 1)" "- 1022 \<le> k"
  shows "ulp x = 2 powi (k - 52)"
  using ilog2_unique[OF assms(1,2)] assms(3) by (simp add: ulp_def)

lemma ulp_ge_min: "2 powi (- 1074) \<le> ulp x"
  unfolding ulp_def by (rule pow2_mono) simp

lemma ulp_le_rel:
  assumes "2 powi (- 1022) \<le> \<bar>x\<bar>"
  shows "ulp x \<le> \<bar>x\<bar> * 2 powi (- 52)"
proof -
  have x: "0 < \<bar>x\<bar>" using assms pow2_pos[of "- 1022"] by linarith
  have "- 1022 \<le> ilog2 \<bar>x\<bar>"
  proof (rule ccontr)
    assume "\<not> - 1022 \<le> ilog2 \<bar>x\<bar>"
    then have "ilog2 \<bar>x\<bar> + 1 \<le> - 1022" by simp
    from pow2_mono[OF this] ilog2_bounds(2)[OF x] assms show False by linarith
  qed
  then have "ulp x = 2 powi (ilog2 \<bar>x\<bar>) * 2 powi (- 52)"
    by (simp add: ulp_def max_def power_int_diff)
  also have "\<dots> \<le> \<bar>x\<bar> * 2 powi (- 52)"
    using ilog2_bounds(1)[OF x] by (intro mult_right_mono) simp_all
  finally show ?thesis .
qed

lemma nearest_fix_scaled:
  assumes "ulp x = 2 powi i" "x = of_int m * 2 powi j" "i \<le> j"
  shows "nearest x = x"
proof -
  have "(2::rat) powi j = 2 powi (j - i) * 2 powi i"
    by (simp add: power_int_add[symmetric])
  also have "\<dots> = of_int (2 ^ nat (j - i)) * 2 powi i"
    using assms(3) by (simp add: pow2_int)
  finally have "x = of_int (m * 2 ^ nat (j - i)) * ulp x"
    using assms(1,2) by simp
  then show ?thesis by (rule nearest_fix)
qed

lemma nearest_int_pos:
  assumes "0 < n" "n \<le> 2 ^ 53"
  shows "nearest (of_int n) = of_int n"
proof -
  let ?x = "of_int n :: rat"
  have x1: "1 \<le> ?x" using assms(1) by simp
  then have x: "0 < ?x" by linarith
  have xa: "\<bar>?x\<bar> = ?x" using x by simp
  have hi: "?x \<le> 2 powi 53"
  proof -
    have "?x \<le> of_int (2 ^ 53)" using assms(2) by (simp only: of_int_le_iff)
    then show ?thesis by simp
  qed
  have e0: "0 \<le> ilog2 ?x"
  proof (rule ccontr)
    assume "\<not> 0 \<le> ilog2 ?x"
    then have "ilog2 ?x + 1 \<le> 0" by simp
    from pow2_mono[OF this] ilog2_bounds(2)[OF x] x1 show False by simp
  qed
  have e53: "ilog2 ?x \<le> 53"
  proof (rule ccontr)
    assume "\<not> ilog2 ?x \<le> 53"
    then have "54 \<le> ilog2 ?x" by simp
    from pow2_mono[OF this] ilog2_bounds(1)[OF x] hi
    have "(2::rat) powi 54 \<le> 2 powi 53" by linarith
    then show False by simp
  qed
  have u: "ulp ?x = 2 powi (ilog2 ?x - 52)" using e0 by (simp add: ulp_def xa)
  show ?thesis
  proof (cases "ilog2 ?x \<le> 52")
    case True
    show ?thesis
      by (rule nearest_fix_scaled[OF u, of n 0]) (use True in simp_all)
  next
    case False
    then have e: "ilog2 ?x = 53" using e53 by simp
    then have "?x = 2 powi 53" using ilog2_bounds(1)[OF x] hi by simp
    then have "?x = of_int 1 * 2 powi 53" by simp
    with u e show ?thesis
      by (intro nearest_fix_scaled[of ?x 1 1 53]) simp_all
  qed
qed

lemma nearest_int:
  assumes "\<bar>n\<bar> \<le> 2 ^ 53"
  shows "nearest (of_int n) = of_int n"
proof -
  consider "n = 0" | "0 < n" | "n < 0" by linarith
  then show ?thesis
  proof cases
    case 1 then show ?thesis by simp
  next
    case 2 then show ?thesis using assms by (intro nearest_int_pos) simp_all
  next
    case 3
    then have "nearest (of_int (- n)) = of_int (- n)" using assms by (intro nearest_int_pos) simp_all
    then show ?thesis using nearest_neg[of "of_int n"] by simp
  qed
qed

lemma nearest_mono_pos:
  assumes "0 < x" "x \<le> y"
  shows "nearest x \<le> nearest y"
proof -
  have y: "0 < y" using assms by linarith
  define ex where "ex = max (ilog2 x) (- 1022)"
  define ey where "ey = max (ilog2 y) (- 1022)"
  have ux: "ulp x = 2 powi (ex - 52)" using assms(1) by (simp add: ulp_def ex_def)
  have uy: "ulp y = 2 powi (ey - 52)" using y by (simp add: ulp_def ey_def)
  have le: "ex \<le> ey" using ilog2_mono[OF assms] by (simp add: ex_def ey_def)
  show ?thesis
  proof (cases "ex = ey")
    case True
    then have u: "ulp x = ulp y" using ux uy by simp
    have "x / ulp y \<le> y / ulp y" using assms(2) ulp_pos[of y] by (simp add: field_simps)
    from rhe_mono[OF this]
    have "(of_int (round_half_even (x / ulp y)) :: rat) \<le> of_int (round_half_even (y / ulp y))"
      by (simp only: of_int_le_iff)
    then show ?thesis using ulp_pos[of y] by (simp add: nearest_def u)
  next
    case False
    then have lt: "ex < ey" using le by simp
    then have eyl: "ey = ilog2 y" by (auto simp: ex_def ey_def max_def split: if_splits)
    define p where "p = (2::rat) powi ey"
    have "p = of_int (2 ^ 52) * ulp y"
      by (simp add: p_def uy power_int_diff)
    moreover have "p \<le> y" using ilog2_bounds(1)[OF y] by (simp add: p_def eyl)
    ultimately have 1: "p \<le> nearest y" using nearest_ge_grid[of "2 ^ 52" y] by simp
    have "x < 2 powi (ilog2 x + 1)" by (rule ilog2_bounds(2)[OF assms(1)])
    also have "\<dots> \<le> 2 powi (ex + 1)" by (rule pow2_mono) (simp add: ex_def)
    also have "\<dots> \<le> p" unfolding p_def by (rule pow2_mono) (use lt in simp)
    finally have xp: "x \<le> p" by simp
    have "p = 2 powi (ey - ex + 52) * 2 powi (ex - 52)"
      by (simp add: p_def power_int_add[symmetric])
    also have "\<dots> = of_int (2 ^ nat (ey - ex + 52)) * ulp x"
      using lt by (simp add: pow2_int ux)
    finally have pg: "p = of_int (2 ^ nat (ey - ex + 52)) * ulp x" .
    have "nearest x \<le> p" using nearest_le_grid[of x "2 ^ nat (ey - ex + 52)"] xp pg by simp
    with 1 show ?thesis by linarith
  qed
qed

lemma nearest_mono:
  assumes "x \<le> y"
  shows "nearest x \<le> nearest y"
proof -
  consider "0 < x" | "x \<le> 0" "0 \<le> y" | "y < 0" using assms by linarith
  then show ?thesis
  proof cases
    case 1 then show ?thesis using assms by (rule nearest_mono_pos)
  next
    case 2 then show ?thesis using nearest_nonpos[of x] nearest_nonneg[of y] by linarith
  next
    case 3
    then have "nearest (- y) \<le> nearest (- x)" using assms by (intro nearest_mono_pos) simp_all
    then show ?thesis by (simp add: nearest_neg)
  qed
qed

lemma nearest_abs_le_int:
  assumes "\<bar>x\<bar> \<le> of_int m" "m \<le> 2 ^ 53"
  shows "\<bar>nearest x\<bar> \<le> of_int m"
proof -
  have m: "\<bar>m\<bar> \<le> 2 ^ 53" "\<bar>- m\<bar> \<le> 2 ^ 53" using assms abs_ge_zero[of x] by auto
  have "nearest x \<le> nearest (of_int m)" using assms(1) by (intro nearest_mono) linarith
  moreover have "nearest (of_int (- m)) \<le> nearest x" using assms(1) by (intro nearest_mono) simp
  ultimately show ?thesis using nearest_int[OF m(1)] nearest_int[OF m(2)] by (simp add: abs_le_iff)
qed

lemma round64_finite:
  assumes "\<bar>x\<bar> \<le> 2 ^ 53"
  shows "round64 x = Finite (nearest x)"
proof -
  have "\<bar>nearest x\<bar> \<le> of_int (2 ^ 53)"
    using assms by (intro nearest_abs_le_int) simp_all
  then have "\<bar>nearest x\<bar> < 2 powi 1024" by simp
  then show ?thesis by (simp add: round64_def)
qed

lemma round64_int:
  assumes "\<bar>n\<bar> \<le> 2 ^ 53"
  shows "round64 (of_int n) = Finite (of_int n)"
proof -
  have "\<bar>of_int n :: rat\<bar> \<le> of_int (2 ^ 53)" using assms by (simp only: of_int_abs[symmetric] of_int_le_iff)
  then show ?thesis using round64_finite[of "of_int n"] nearest_int[OF assms] by simp
qed

lemma nearest_1 [simp]: "nearest 1 = 1"
  using nearest_int[of 1] by simp

lemma nearest_100 [simp]: "nearest 100 = 100"
  using nearest_int[of 100] by simp

lemma percent_range:
  assumes "0 < t" "0 \<le> a" "a \<le> t"
  shows "0 \<le> percent a t" "percent a t \<le> 100"
    and "0 \<le> nearest (of_int a / of_int t)" "nearest (of_int a / of_int t) \<le> 1"
proof -
  let ?q = "of_int a / of_int t :: rat"
  have q: "0 \<le> ?q" "?q \<le> 1" using assms by simp_all
  show n: "0 \<le> nearest ?q" "nearest ?q \<le> 1"
    using nearest_mono[OF q(1)] nearest_mono[OF q(2)] by simp_all
  then have "0 \<le> nearest ?q * 100" "nearest ?q * 100 \<le> 100" by simp_all
  then show "0 \<le> percent a t" "percent a t \<le> 100"
    using nearest_mono[of 0 "nearest ?q * 100"] nearest_mono[of "nearest ?q * 100" 100]
    by (simp_all add: percent_def)
qed

lemma js_percent:
  assumes "0 < t" "0 \<le> a" "a \<le> t"
  shows "js_mul (js_div (num a) (num t)) (num 100) = Finite (percent a t)"
proof -
  note r = percent_range[OF assms]
  have q: "0 \<le> (of_int a / of_int t :: rat)" "(of_int a / of_int t :: rat) \<le> 1"
    using assms by simp_all
  have "round64 (of_int a / of_int t) = Finite (nearest (of_int a / of_int t))"
    using q by (intro round64_finite) simp
  moreover have "round64 (nearest (of_int a / of_int t) * 100) = Finite (percent a t)"
    unfolding percent_def using r(3,4) by (intro round64_finite) simp
  ultimately show ?thesis using assms by (simp add: num_def)
qed

lemma js_sub_int:
  assumes "\<bar>m - n\<bar> \<le> 2 ^ 53"
  shows "js_sub (num m) (num n) = num (m - n)"
  using round64_int[OF assms] by (simp add: num_def)

lemma nearest_rel:
  assumes "2 powi (- 1022) \<le> \<bar>x\<bar>"
  shows "\<bar>nearest x - x\<bar> \<le> \<bar>x\<bar> * 2 powi (- 53)"
proof -
  have "\<bar>nearest x - x\<bar> \<le> ulp x / 2" by (rule nearest_err)
  also have "\<dots> \<le> (\<bar>x\<bar> * 2 powi (- 52)) / 2" using ulp_le_rel[OF assms] by simp
  also have "\<dots> = \<bar>x\<bar> * 2 powi (- 53)" by simp
  finally show ?thesis .
qed

lemma nearest_pow2:
  assumes "- 1074 \<le> k"
  shows "nearest (2 powi k) = 2 powi k"
proof -
  have "ilog2 (2 powi k) = k" by (rule ilog2_unique) (simp_all add: pow2_strict_mono)
  then have u: "ulp (2 powi k) = 2 powi (max k (- 1022) - 52)" by (simp add: ulp_def)
  show ?thesis
    by (rule nearest_fix_scaled[OF u, of 1 k]) (use assms in simp_all)
qed

lemma percent_error:
  assumes "0 < t" "0 \<le> a" "a \<le> t" "t \<le> 2 ^ 1022"
  shows "\<bar>percent a t - of_int a / of_int t * 100\<bar>
           \<le> of_int a / of_int t * 100 * (2 powi (- 52) + 2 powi (- 106))"
proof (cases "a = 0")
  case True
  then show ?thesis by (simp add: percent_def)
next
  case False
  define q :: rat where "q = of_int a / of_int t"
  define q' where "q' = nearest q"
  define e :: rat where "e = 2 powi (- 53)"
  have a1: "1 \<le> a" using False assms(2) by simp
  have tpos: "(0::rat) < of_int t" using assms(1) by simp
  have "(of_int t :: rat) \<le> of_int (2 ^ 1022)" using assms(4) by (simp only: of_int_le_iff)
  then have tle: "(of_int t :: rat) \<le> 2 powi 1022" by simp
  have "1 / 2 powi 1022 \<le> 1 / (of_int t :: rat)"
    using tpos tle by (intro divide_left_mono) simp_all
  also have "\<dots> \<le> q" unfolding q_def using a1 tpos by (simp add: divide_right_mono)
  finally have qlo: "2 powi (- 1022) \<le> q" by (simp add: power_int_minus_divide)
  then have qpos: "0 < q" using pow2_pos[of "- 1022"] by linarith
  have 1: "\<bar>q' - q\<bar> \<le> q * e"
    using nearest_rel[of q] qlo qpos by (simp add: q'_def e_def)
  have q'lo: "2 powi (- 1022) \<le> q'"
    using nearest_mono[OF qlo] nearest_pow2[of "- 1022"] by (simp add: q'_def)
  then have q'pos: "0 < q'" using pow2_pos[of "- 1022"] by linarith
  have "2 powi (- 1022) \<le> \<bar>q' * 100\<bar>" using q'lo q'pos by simp
  from nearest_rel[OF this] have 2: "\<bar>percent a t - q' * 100\<bar> \<le> q' * 100 * e"
    using q'pos by (simp add: percent_def q'_def q_def e_def)
  have q'up: "q' \<le> q * (1 + e)" using 1 by (simp add: abs_le_iff algebra_simps)
  have e0: "0 \<le> e" by (simp add: e_def)
  have "\<bar>percent a t - q * 100\<bar> = \<bar>(percent a t - q' * 100) + (q' - q) * 100\<bar>"
    by (simp add: algebra_simps)
  also have "\<dots> \<le> \<bar>percent a t - q' * 100\<bar> + \<bar>(q' - q) * 100\<bar>"
    by (rule abs_triangle_ineq)
  also have "\<dots> = \<bar>percent a t - q' * 100\<bar> + \<bar>q' - q\<bar> * 100"
    using abs_mult[of "q' - q" 100] by simp
  also have "\<dots> \<le> q' * 100 * e + q * e * 100" using 1 2 by simp
  also have "\<dots> \<le> q * (1 + e) * 100 * e + q * e * 100"
    using q'up e0 by (simp add: mult_right_mono)
  also have "\<dots> = q * 100 * (2 * e + e * e)" by (simp add: algebra_simps)
  also have "2 * e + e * e = 2 powi (- 52) + 2 powi (- 106)" by (simp add: e_def)
  finally show ?thesis by (simp add: q_def)
qed

lemma Math_max_0_int: "Math_max (num 0) (num n) = num (max 0 n)"
  by (simp add: num_def max_def)




text \<open>The test for overflow on exponents, for evaluation.\<close>

lemma ilog2_0: "ilog2 0 = 0"
  by (simp add: ilog2_def bitlen_eq_zero_iff)

lemma pow2_le_iff_ilog2:
  assumes "0 < x"
  shows "2 powi k \<le> x \<longleftrightarrow> k \<le> ilog2 x"
proof
  assume "2 powi k \<le> x"
  show "k \<le> ilog2 x"
  proof (rule ccontr)
    assume "\<not> k \<le> ilog2 x"
    then have "ilog2 x + 1 \<le> k" by simp
    from pow2_mono[OF this] ilog2_bounds(2)[OF assms] \<open>2 powi k \<le> x\<close> show False by linarith
  qed
next
  assume "k \<le> ilog2 x"
  from pow2_mono[OF this] ilog2_bounds(1)[OF assms] show "2 powi k \<le> x" by linarith
qed

lemma round64_code [code]:
  "round64 x =
     (if x = 0 then Finite 0
      else if 1024 \<le> ilog2 \<bar>nearest x\<bar> then (if 0 < x then PosInf else NegInf)
      else Finite (nearest x))"
proof (cases "nearest x = 0")
  case True
  then show ?thesis by (simp add: round64_def ilog2_0)
next
  case False
  then have "0 < \<bar>nearest x\<bar>" by simp
  from pow2_le_iff_ilog2[OF this, of 1024] show ?thesis by (simp add: round64_def)
qed

section \<open>Arithmetic of the calculator\<close>

text \<open>
  The quotient \<open>(T * t - 100 * a) / (100 - T)\<close> is rounded once, and as long as the
  numerator is an exact integer below \<open>2\<^sup>5\<^sup>3\<close> the rounding cannot cross an integer:
  \<open>Math.ceil\<close> of the rounded quotient is the ceiling of the exact one.
\<close>

lemma ceiling_nearest_quotient:
  assumes "\<bar>N\<bar> < 2 ^ 53" "0 < D" "D \<le> 2 ^ 53"
  shows "\<lceil>nearest (of_int N / of_int D)\<rceil> = \<lceil>of_int N / of_int D :: rat\<rceil>"
proof -
  define x :: rat where "x = of_int N / of_int D"
  define c where "c = \<lceil>x\<rceil>"
  define e :: rat where "e = 2 powi (- 53)"
  have epos: "0 < e" by (simp add: e_def)
  have Dpos: "(0::rat) < of_int D" using assms(2) by simp
  have D1: "(1::rat) \<le> of_int D" using assms(2) by simp
  have "\<bar>x\<bar> = \<bar>of_int N\<bar> / of_int D" using Dpos by (simp add: x_def)
  also have "\<dots> \<le> \<bar>of_int N\<bar> / 1" using D1 by (intro divide_left_mono) simp_all
  finally have xN: "\<bar>x\<bar> \<le> of_int \<bar>N\<bar>" by simp
  have "(of_int \<bar>N\<bar> :: rat) \<le> of_int (2 ^ 53)" using assms(1) by (simp only: of_int_le_iff)
  with xN have xb: "\<bar>x\<bar> \<le> 2 ^ 53" by simp
  have cx: "of_int c - 1 < x" "x \<le> of_int c" unfolding c_def by linarith+
  have "x \<le> of_int (2 ^ 53)" using xb by simp
  then have c1: "c \<le> 2 ^ 53" unfolding c_def by (simp only: ceiling_le_iff)
  have "- (2 ^ 53) - 1 < (of_int c :: rat)" using cx(2) xb by (simp add: abs_le_iff)
  then have "(of_int (- (2 ^ 53) - 1) :: rat) < of_int c" by simp
  then have c2: "- (2 ^ 53) \<le> c" by (simp only: of_int_less_iff)
  have cb: "\<bar>c\<bar> \<le> 2 ^ 53" using c1 c2 by simp
  have up: "nearest x \<le> of_int c"
    using nearest_mono[OF cx(2)] nearest_int[OF cb] by simp
  have lo: "of_int c - 1 < nearest x"
  proof (cases "N = 0")
    case True
    then show ?thesis using cx(1) by (simp add: x_def)
  next
    case False
    have "of_int ((c - 1) * D) < (of_int N :: rat)"
      using cx(1) Dpos by (simp add: x_def field_simps)
    then have "(c - 1) * D < N" by (simp only: of_int_less_iff)
    then have "(c - 1) * D + 1 \<le> N" by simp
    then have "(of_int ((c - 1) * D + 1) :: rat) \<le> of_int N" by (simp only: of_int_le_iff)
    then have "((of_int c - 1) * of_int D + 1) / of_int D \<le> (of_int N :: rat) / of_int D"
      using Dpos by (intro divide_right_mono) simp_all
    moreover have "((of_int c - 1) * of_int D + 1) / of_int D = (of_int c - 1 + 1 / of_int D :: rat)"
      using Dpos by (simp add: add_divide_distrib)
    ultimately have gap: "of_int c - 1 + 1 / of_int D \<le> x"
      by (simp add: x_def)
    have "1 \<le> \<bar>N\<bar>" using False by simp
    then have "(1::rat) \<le> \<bar>of_int N\<bar>" by (simp only: of_int_abs[symmetric] of_int_1[symmetric, where ?'a = rat] of_int_le_iff)
    then have "1 / of_int D \<le> \<bar>of_int N\<bar> / (of_int D :: rat)"
      using Dpos by (intro divide_right_mono) simp_all
    then have xlo: "1 / of_int D \<le> \<bar>x\<bar>" using Dpos by (simp add: x_def)
    have "(of_int D :: rat) \<le> of_int (2 ^ 53)" using assms(3) by (simp only: of_int_le_iff)
    then have "(of_int D :: rat) \<le> 2 powi 1022" by simp
    then have "1 / 2 powi 1022 \<le> 1 / (of_int D :: rat)"
      using Dpos by (intro divide_left_mono) simp_all
    then have "2 powi (- 1022) \<le> \<bar>x\<bar>" using xlo by (simp add: power_int_minus_divide)
    from nearest_rel[OF this] have "\<bar>nearest x - x\<bar> \<le> \<bar>x\<bar> * e" unfolding e_def .
    then have "x - \<bar>x\<bar> * e \<le> nearest x" by (simp only: abs_le_iff) linarith
    moreover have "\<bar>x\<bar> * e < 1 / of_int D"
    proof -
      have "(of_int \<bar>N\<bar> :: rat) < of_int (2 ^ 53)" using assms(1) by (simp only: of_int_less_iff)
      then have "\<bar>of_int N :: rat\<bar> < 2 ^ 53" by simp
      then have "\<bar>of_int N :: rat\<bar> / of_int D < 2 ^ 53 / of_int D"
        using Dpos by (intro divide_strict_right_mono)
      then have "\<bar>x\<bar> < 2 ^ 53 / of_int D" using Dpos by (simp add: x_def)
      then have "\<bar>x\<bar> * e < 2 ^ 53 / of_int D * e"
        using epos by (intro mult_strict_right_mono)
      also have "\<dots> = 1 / of_int D" by (simp add: e_def)
      finally show ?thesis .
    qed
    ultimately show ?thesis using gap by linarith
  qed
  have "\<lceil>nearest x\<rceil> = c" using lo up by (intro ceiling_unique) simp_all
  then show ?thesis by (simp add: c_def x_def)
qed

lemma js_mul_int:
  assumes "\<bar>m * n\<bar> \<le> 2 ^ 53"
  shows "js_mul (num m) (num n) = num (m * n)"
  using round64_int[OF assms] by (simp add: num_def)

lemma toAttend_exact:
  assumes "0 < t" "0 \<le> a" "a \<le> t" "0 < T" "T < 100" "t \<le> 2 ^ 46"
  shows "Math_max (num 0) (Math_ceil
           (js_div (js_sub (js_mul (num T) (num t)) (js_mul (num 100) (num a)))
                   (js_sub (num 100) (num T))))
         = num (max 0 \<lceil>of_int (T * t - 100 * a) / of_int (100 - T) :: rat\<rceil>)"
proof -
  have Tt: "0 \<le> T * t" "T * t \<le> 99 * 2 ^ 46"
    using assms mult_mono[of T 99 t "2 ^ 46"] by simp_all
  have a100: "0 \<le> 100 * a" "100 * a \<le> 100 * 2 ^ 46" using assms by simp_all
  have 1: "js_mul (num T) (num t) = num (T * t)" using Tt by (intro js_mul_int) simp
  have 2: "js_mul (num 100) (num a) = num (100 * a)" using a100 by (intro js_mul_int) simp
  have N: "\<bar>T * t - 100 * a\<bar> < 2 ^ 53" using Tt a100 by simp
  have 3: "js_sub (num (T * t)) (num (100 * a)) = num (T * t - 100 * a)"
    using N by (intro js_sub_int) simp
  have 4: "js_sub (num 100) (num T) = num (100 - T)" using assms by (intro js_sub_int) simp
  have D: "0 < 100 - T" "100 - T \<le> 2 ^ 53" using assms by simp_all
  define x :: rat where "x = of_int (T * t - 100 * a) / of_int (100 - T)"
  have "\<bar>x\<bar> \<le> \<bar>of_int (T * t - 100 * a)\<bar> / 1"
    unfolding x_def abs_divide using D(1) by (intro divide_left_mono) simp_all
  also have "\<dots> = of_int \<bar>T * t - 100 * a\<bar>" by simp
  also have "\<dots> \<le> of_int (2 ^ 53)" using N by (simp only: of_int_le_iff)
  finally have "\<bar>x\<bar> \<le> 2 ^ 53" by simp
  then have 5: "round64 x = Finite (nearest x)" by (rule round64_finite)
  have 6: "\<lceil>nearest x\<rceil> = \<lceil>x\<rceil>"
    unfolding x_def by (rule ceiling_nearest_quotient[OF N D])
  have 7: "js_div (num (T * t - 100 * a)) (num (100 - T)) = Finite (nearest x)"
    using D(1) 5 by (simp add: num_def x_def)
  have 8: "Math_ceil (Finite (nearest x)) = num \<lceil>x\<rceil>" by (simp add: 6 num_def)
  show ?thesis
    unfolding 1 2 3 4 7 8 x_def[symmetric] by (rule Math_max_0_int)
qed

lemma least_classes:
  assumes "0 < t" "0 < T" "T < 100" "0 \<le> j"
  shows "(of_int T :: rat) \<le> of_int (a + j) / of_int (t + j) * 100
           \<longleftrightarrow> max 0 \<lceil>of_int (T * t - 100 * a) / of_int (100 - T) :: rat\<rceil> \<le> j"
proof -
  have tj: "(0::rat) < of_int (t + j)" using assms by simp
  have D: "(0::rat) < of_int (100 - T)" using assms by simp
  have "(of_int T :: rat) \<le> of_int (a + j) / of_int (t + j) * 100
          \<longleftrightarrow> (of_int (T * (t + j)) :: rat) \<le> of_int (100 * (a + j))"
    using tj by (simp add: field_simps)
  also have "\<dots> \<longleftrightarrow> T * (t + j) \<le> 100 * (a + j)" by (simp only: of_int_le_iff)
  also have "\<dots> \<longleftrightarrow> T * t - 100 * a \<le> j * (100 - T)" by (simp add: algebra_simps)
  also have "\<dots> \<longleftrightarrow> (of_int (T * t - 100 * a) :: rat) \<le> of_int (j * (100 - T))"
    by (simp only: of_int_le_iff)
  also have "\<dots> \<longleftrightarrow> (of_int (T * t - 100 * a) / of_int (100 - T) :: rat) \<le> of_int j"
    using D by (simp add: field_simps)
  also have "\<dots> \<longleftrightarrow> \<lceil>of_int (T * t - 100 * a) / of_int (100 - T) :: rat\<rceil> \<le> j"
    by (simp only: ceiling_le_iff)
  finally show ?thesis using assms(4) by simp
qed


lemma compute_Inr:
  assumes "0 < totalClasses d" "attendedClasses d \<le> totalClasses d"
  shows "compute d = Inr (projr (compute d))"
  using assms by (simp add: compute_def Let_def)

lemma compute_classesToAttend:
  assumes "0 < totalClasses d" "attendedClasses d \<le> totalClasses d"
  shows "classesToAttend (projr (compute d)) = classesNeeded d (targetPercentage d)"
  using assms by (simp add: compute_def Let_def classesNeeded_def)


lemma customTargets_subset:
  "set (take 2 (customTargets d)) \<subseteq> {T. T \<in> {80, 85, 90, 95} \<and> targetPercentage d < T}"
proof -
  have "set (take 2 (customTargets d)) \<subseteq> set (customTargets d)" by (rule set_take_subset)
  also have "\<dots> \<subseteq> {T. T \<in> {80, 85, 90, 95} \<and> targetPercentage d < T}"
    by (auto simp: customTargets_def)
  finally show ?thesis .
qed

lemma nearest_lower:
  assumes "2 powi (- 1022) \<le> x"
  shows "x * (1 - 2 powi (- 53)) \<le> nearest x"
proof -
  have x: "0 < x" using assms pow2_pos[of "- 1022"] by linarith
  then have "2 powi (- 1022) \<le> \<bar>x\<bar>" using assms by simp
  from nearest_rel[OF this] have "\<bar>nearest x - x\<bar> \<le> x * 2 powi (- 53)" using x by simp
  then have "x - x * 2 powi (- 53) \<le> nearest x" by (simp only: abs_le_iff) linarith
  then show ?thesis by (simp only: right_diff_distrib mult_1_right)
qed

lemma nearest_upper:
  assumes "2 powi (- 1022) \<le> x"
  shows "nearest x \<le> x * (1 + 2 powi (- 53))"
proof -
  have x: "0 < x" using assms pow2_pos[of "- 1022"] by linarith
  then have "2 powi (- 1022) \<le> \<bar>x\<bar>" using assms by simp
  from nearest_rel[OF this] have "\<bar>nearest x - x\<bar> \<le> x * 2 powi (- 53)" using x by simp
  then have "nearest x \<le> x + x * 2 powi (- 53)" by (simp only: abs_le_iff) linarith
  then show ?thesis by (simp only: distrib_left mult_1_right)
qed

lemma target_ratio:
  assumes "0 < T" "T < 100"
  shows "2 powi (- 7) \<le> nearest (of_int T / 100)"
    and "nearest (of_int T / 100) \<le> 1"
    and "of_int T / 100 * (1 - 2 powi (- 53)) \<le> nearest (of_int T / 100)"
proof -
  have "(1::rat) \<le> of_int T" using assms(1) by simp
  then have lo: "(2::rat) powi (- 7) \<le> of_int T / 100" by simp
  have "(of_int T :: rat) \<le> 100" using assms(2) by simp
  then have hi: "(of_int T :: rat) / 100 \<le> 1" by simp
  show "2 powi (- 7) \<le> nearest (of_int T / 100)"
    using nearest_mono[OF lo] nearest_pow2[of "- 7"] by simp
  show "nearest (of_int T / 100) \<le> 1" using nearest_mono[OF hi] by simp
  have "(2::rat) powi (- 1022) \<le> 2 powi (- 7)" by (rule pow2_mono) simp
  with lo have "(2::rat) powi (- 1022) \<le> of_int T / 100" by linarith
  then show "of_int T / 100 * (1 - 2 powi (- 53)) \<le> nearest (of_int T / 100)"
    by (rule nearest_lower)
qed

lemma nearest_abs_le_pow2:
  assumes "\<bar>x\<bar> \<le> 2 powi k" "- 1074 \<le> k"
  shows "\<bar>nearest x\<bar> \<le> 2 powi k"
proof -
  have "nearest x \<le> nearest (2 powi k)" using assms(1) by (intro nearest_mono) linarith
  moreover have "nearest (- (2 powi k)) \<le> nearest x" using assms(1) by (intro nearest_mono) linarith
  ultimately show ?thesis
    using nearest_pow2[OF assms(2)] by (simp add: nearest_neg abs_le_iff)
qed


lemma round64_finite_big:
  assumes "\<bar>x\<bar> \<le> 2 powi 1023"
  shows "round64 x = Finite (nearest x)"
proof -
  have "\<bar>nearest x\<bar> \<le> 2 powi 1023" using assms by (rule nearest_abs_le_pow2) simp
  moreover have "(2::rat) powi 1023 < 2 powi 1024" by (rule pow2_strict_mono) simp
  ultimately have "\<not> 2 powi 1024 \<le> \<bar>nearest x\<bar>" by linarith
  then show ?thesis by (simp only: round64_def if_False) simp
qed

lemma round64_overflow:
  assumes "2 powi 1024 \<le> x"
  shows "round64 x = PosInf"
proof -
  have x: "0 < x" using assms pow2_pos[of 1024] by linarith
  have "nearest (2 powi 1024) \<le> nearest x" using assms by (rule nearest_mono)
  then have "2 powi 1024 \<le> nearest x" using nearest_pow2[of 1024] by simp
  then have "2 powi 1024 \<le> \<bar>nearest x\<bar>" by linarith
  then show ?thesis using x by (simp only: round64_def) simp
qed

lemma attendable_mono:
  assumes "0 < T1" "T1 \<le> T2" "T2 < 100" "0 \<le> t"
  shows "max 0 \<lceil>attendable T1 t a\<rceil> \<le> max 0 \<lceil>attendable T2 t a\<rceil>"
proof -
  define c where "c = nearest (of_int (100 * a))"
  define n1 where "n1 = nearest (nearest (of_int (T1 * t)) - c)"
  define n2 where "n2 = nearest (nearest (of_int (T2 * t)) - c)"
  have "T1 * t \<le> T2 * t" using assms by (intro mult_right_mono) simp_all
  then have "(of_int (T1 * t) :: rat) \<le> of_int (T2 * t)" by (simp only: of_int_le_iff)
  then have "nearest (of_int (T1 * t)) \<le> nearest (of_int (T2 * t))" by (rule nearest_mono)
  then have n: "n1 \<le> n2" unfolding n1_def n2_def by (intro nearest_mono) simp
  have D: "(0::rat) < of_int (100 - T2)" "(of_int (100 - T2) :: rat) \<le> of_int (100 - T1)"
    using assms by simp_all
  have q: "attendable T1 t a = nearest (n1 / of_int (100 - T1))"
    "attendable T2 t a = nearest (n2 / of_int (100 - T2))"
    by (simp_all add: attendable_def n1_def n2_def c_def)
  show ?thesis
  proof (cases "0 \<le> n1")
    case True
    then have "n1 / of_int (100 - T1) \<le> n2 / of_int (100 - T2)" using n D by (intro frac_le; linarith)
    then have "attendable T1 t a \<le> attendable T2 t a" unfolding q by (rule nearest_mono)
    then have "\<lceil>attendable T1 t a\<rceil> \<le> \<lceil>attendable T2 t a\<rceil>" by (rule ceiling_mono)
    then show ?thesis by simp
  next
    case False
    then have "n1 / of_int (100 - T1) \<le> 0" using D by (simp add: divide_le_0_iff)
    then have "attendable T1 t a \<le> 0" unfolding q by (rule nearest_nonpos)
    then have "\<lceil>attendable T1 t a\<rceil> \<le> 0" by (simp add: ceiling_le_iff)
    then show ?thesis by simp
  qed
qed

lemma missable_mono:
  assumes "0 < T1" "T1 \<le> T2" "T2 < 100" "0 \<le> t"
  shows "max 0 \<lfloor>missable T2 t a\<rfloor> \<le> max 0 \<lfloor>missable T1 t a\<rfloor>"
proof -
  define p1 where "p1 = nearest (of_int T1 / 100)"
  define p2 where "p2 = nearest (of_int T2 / 100)"
  define n1 where "n1 = nearest (of_int a - nearest (p1 * of_int t))"
  define n2 where "n2 = nearest (of_int a - nearest (p2 * of_int t))"
  have T2pos: "0 < T2" using assms by simp
  have T1lt: "T1 < 100" using assms by simp
  have p1: "0 < p1" using target_ratio(1)[OF assms(1) T1lt] pow2_pos[of "- 7"]
    unfolding p1_def by linarith
  have "(of_int T1 :: rat) / 100 \<le> of_int T2 / 100" using assms(2) by simp
  then have p: "p1 \<le> p2" unfolding p1_def p2_def by (rule nearest_mono)
  have "p1 * of_int t \<le> p2 * of_int t" using p assms(4) by (intro mult_right_mono) simp_all
  then have "nearest (p1 * of_int t) \<le> nearest (p2 * of_int t)" by (rule nearest_mono)
  then have n: "n2 \<le> n1" unfolding n1_def n2_def by (intro nearest_mono) simp
  have q: "missable T1 t a = nearest (n1 / p1)" "missable T2 t a = nearest (n2 / p2)"
    by (simp_all add: missable_def n1_def n2_def p1_def p2_def)
  show ?thesis
  proof (cases "0 \<le> n2")
    case True
    then have "n2 / p2 \<le> n1 / p1" using n p p1 by (intro frac_le; linarith)
    then have "missable T2 t a \<le> missable T1 t a" unfolding q by (rule nearest_mono)
    then have "\<lfloor>missable T2 t a\<rfloor> \<le> \<lfloor>missable T1 t a\<rfloor>" by (rule floor_mono)
    then show ?thesis by simp
  next
    case False
    then have "n2 / p2 \<le> 0" using p p1 by (simp add: divide_le_0_iff)
    then have "missable T2 t a \<le> 0" unfolding q by (rule nearest_nonpos)
    then have "\<lfloor>missable T2 t a\<rfloor> \<le> 0" by (simp add: floor_le_iff)
    then show ?thesis by simp
  qed
qed


lemma int_le_pow2:
  assumes "n \<le> 2 ^ k"
  shows "(of_int n :: rat) \<le> 2 powi int k"
proof -
  have "(of_int n :: rat) \<le> of_int (2 ^ k)" using assms by (simp only: of_int_le_iff)
  then show ?thesis by simp
qed

lemma abs_le_nonneg: "0 \<le> x \<Longrightarrow> x \<le> H \<Longrightarrow> \<bar>x\<bar> \<le> (H::rat)"
  by simp

lemma toAttend_finite:
  assumes "0 < t" "0 \<le> a" "a \<le> t" "0 < T" "T < 100" "t \<le> 2 ^ 1016"
  shows "Math_max (num 0) (Math_ceil
           (js_div (js_sub (js_mul (num T) (num t)) (js_mul (num 100) (num a)))
                   (js_sub (num 100) (num T))))
         = num (max 0 \<lceil>attendable T t a\<rceil>)"
proof -
  define B :: rat where "B = 2 powi 1016"
  define H :: rat where "H = 2 powi 1023"
  define P where "P = nearest (of_int (T * t))"
  define C where "C = nearest (of_int (100 * a))"
  define n where "n = nearest (P - C)"
  have B0: "0 < B" by (simp add: B_def)
  have BH: "128 * B = H" by (simp add: B_def H_def)
  have nH: "nearest H = H" unfolding H_def by (rule nearest_pow2) simp
  note fin = round64_finite_big[folded H_def]
  have tb: "(of_int t :: rat) \<le> B" unfolding B_def using int_le_pow2[OF assms(6)] by simp
  have t0: "(0::rat) \<le> of_int t" using assms(1) by simp
  have "(of_int T :: rat) * of_int t \<le> 128 * B"
    using assms(4,5) t0 tb by (intro mult_mono) simp_all
  then have Tt: "(of_int (T * t) :: rat) \<le> H" "(0::rat) \<le> of_int (T * t)"
    using assms(1,4) by (simp_all add: BH)
  have "(100::rat) * of_int a \<le> 128 * B"
    using assms(2,3) tb by (intro mult_mono) simp_all
  then have Ca: "(of_int (100 * a) :: rat) \<le> H" "(0::rat) \<le> of_int (100 * a)"
    using assms(2) by (simp_all add: BH)
  have "\<bar>of_int (T * t) :: rat\<bar> \<le> H" using Tt(2,1) by (rule abs_le_nonneg)
  then have "round64 (of_int (T * t)) = Finite P" unfolding P_def by (rule fin)
  then have 1: "js_mul (num T) (num t) = Finite P" by (simp add: num_def)
  have "\<bar>of_int (100 * a) :: rat\<bar> \<le> H" using Ca(2,1) by (rule abs_le_nonneg)
  then have "round64 (of_int (100 * a)) = Finite C" unfolding C_def by (rule fin)
  then have 2: "js_mul (num 100) (num a) = Finite C" by (simp add: num_def)
  have Pb: "0 \<le> P" "P \<le> H"
    using nearest_mono[OF Tt(2)] nearest_mono[OF Tt(1)] nH by (simp_all add: P_def)
  have Cb: "0 \<le> C" "C \<le> H"
    using nearest_mono[OF Ca(2)] nearest_mono[OF Ca(1)] nH by (simp_all add: C_def)
  have PC: "\<bar>P - C\<bar> \<le> H" using Pb Cb by (simp only: abs_le_iff) linarith
  have "round64 (P - C) = Finite n" unfolding n_def using PC by (rule fin)
  then have 3: "js_sub (Finite P) (Finite C) = Finite n" by simp
  have nb: "\<bar>n\<bar> \<le> H" unfolding n_def H_def using PC[unfolded H_def]
    by (rule nearest_abs_le_pow2) simp
  have 4: "js_sub (num 100) (num T) = num (100 - T)" using assms(4,5) by (intro js_sub_int) simp
  have D: "(1::rat) \<le> of_int (100 - T)" using assms(5) by simp
  have "\<bar>n / of_int (100 - T)\<bar> = \<bar>n\<bar> / of_int (100 - T)" using D by simp
  also have "\<dots> \<le> \<bar>n\<bar> / 1" using D by (intro divide_left_mono) simp_all
  finally have "\<bar>n / of_int (100 - T)\<bar> \<le> H" using nb by simp
  then have "round64 (n / of_int (100 - T)) = Finite (nearest (n / of_int (100 - T)))"
    by (rule fin)
  then have 5: "js_div (Finite n) (num (100 - T)) = Finite (nearest (n / of_int (100 - T)))"
    using D by (simp add: num_def)
  have q: "attendable T t a = nearest (n / of_int (100 - T))"
    by (simp add: attendable_def n_def P_def C_def)
  have 6: "Math_ceil (Finite (nearest (n / of_int (100 - T)))) = num \<lceil>attendable T t a\<rceil>"
    by (simp add: q num_def)
  show ?thesis unfolding 1 2 3 4 5 6 by (rule Math_max_0_int)
qed

lemma toBunk_finite:
  assumes "0 < t" "0 \<le> a" "a \<le> t" "0 < T" "T < 100" "t \<le> 2 ^ 1016"
  shows "Math_max (num 0) (Math_floor
           (js_div (js_sub (num a) (js_mul (js_div (num T) (num 100)) (num t)))
                   (js_div (num T) (num 100))))
         = num (max 0 \<lfloor>missable T t a\<rfloor>)"
proof -
  define B :: rat where "B = 2 powi 1016"
  define H :: rat where "H = 2 powi 1023"
  define p where "p = nearest (of_int T / 100)"
  define s where "s = nearest (p * of_int t)"
  define n where "n = nearest (of_int a - s)"
  have B0: "0 < B" by (simp add: B_def)
  have BH: "128 * B = H" by (simp add: B_def H_def)
  have nB: "nearest B = B" unfolding B_def by (rule nearest_pow2) simp
  note fin = round64_finite_big[folded H_def]
  note pr = target_ratio[OF assms(4,5), folded p_def]
  have p7: "1 / 128 \<le> p" using pr(1) by simp
  have p0: "0 < p" using p7 by linarith
  have Tr: "(0::rat) \<le> of_int T" "(of_int T :: rat) \<le> 100" using assms(4,5) by simp_all
  have "round64 (of_int T / 100) = Finite p"
    unfolding p_def using Tr by (intro round64_finite) simp
  then have 1: "js_div (num T) (num 100) = Finite p" by (simp add: num_def)
  have t0: "(0::rat) < of_int t" using assms(1) by simp
  have tb: "(of_int t :: rat) \<le> B" unfolding B_def using int_le_pow2[OF assms(6)] by simp
  have "p * of_int t \<le> 1 * of_int t" using pr(2) t0 by (intro mult_right_mono) simp_all
  then have "p * of_int t \<le> B" using tb by linarith
  moreover have "0 \<le> p * of_int t" using p0 t0 by simp
  ultimately have pt: "0 \<le> p * of_int t" "p * of_int t \<le> B" by simp_all
  have "p * of_int t \<le> H" using pt(2) B0 BH by linarith
  with pt(1) have "\<bar>p * of_int t\<bar> \<le> H" by (rule abs_le_nonneg)
  then have "round64 (p * of_int t) = Finite s" unfolding s_def by (rule fin)
  then have 2: "js_mul (Finite p) (num t) = Finite s" by (simp add: num_def)
  have sb: "0 \<le> s" "s \<le> B"
    using nearest_mono[OF pt(1)] nearest_mono[OF pt(2)] nB by (simp_all add: s_def)
  have ar: "(0::rat) \<le> of_int a" "(of_int a :: rat) \<le> B"
    using assms(2,3) tb by simp_all
  have as: "\<bar>of_int a - s\<bar> \<le> B" using ar sb by (simp only: abs_le_iff) linarith
  then have "\<bar>of_int a - s\<bar> \<le> H" using B0 BH by linarith
  then have "round64 (of_int a - s) = Finite n" unfolding n_def by (rule fin)
  then have 3: "js_sub (num a) (Finite s) = Finite n" by (simp add: num_def)
  have nb: "\<bar>n\<bar> \<le> B" unfolding n_def B_def using as[unfolded B_def]
    by (rule nearest_abs_le_pow2) simp
  have "\<bar>n / p\<bar> = \<bar>n\<bar> / p" using p0 by simp
  also have "\<dots> \<le> B / (1 / 128)"
    using nb p7 B0 by (intro frac_le) simp_all
  also have "\<dots> = H" using BH by simp
  finally have "round64 (n / p) = Finite (nearest (n / p))" by (rule fin)
  then have 4: "js_div (Finite n) (Finite p) = Finite (nearest (n / p))" using p0 by simp
  have m: "missable T t a = nearest (n / p)" by (simp add: missable_def n_def s_def p_def)
  have 5: "Math_floor (Finite (nearest (n / p))) = num \<lfloor>missable T t a\<rfloor>"
    by (simp add: m num_def)
  show ?thesis unfolding 1 2 3 4 5 by (rule Math_max_0_int)
qed

lemma percent_bounds:
  assumes "0 < t" "0 \<le> a" "a \<le> t" "t \<le> 2 ^ 1022"
  shows "of_int a / of_int t * 100 * (1 - (2 powi (- 52) + 2 powi (- 106))) \<le> percent a t"
    and "percent a t \<le> of_int a / of_int t * 100 * (1 + (2 powi (- 52) + 2 powi (- 106)))"
proof -
  define E :: rat where "E = of_int a / of_int t * 100"
  define z :: rat where "z = 2 powi (- 52) + 2 powi (- 106)"
  from percent_error[OF assms] have "\<bar>percent a t - E\<bar> \<le> E * z" by (simp add: E_def z_def)
  then have "E - E * z \<le> percent a t" "percent a t \<le> E + E * z"
    by (simp_all only: abs_le_iff) linarith+
  then show "of_int a / of_int t * 100 * (1 - (2 powi (- 52) + 2 powi (- 106))) \<le> percent a t"
    and "percent a t \<le> of_int a / of_int t * 100 * (1 + (2 powi (- 52) + 2 powi (- 106)))"
    unfolding E_def[symmetric] z_def[symmetric] by (simp_all only: right_diff_distrib distrib_left mult_1_right)
qed

lemma target_product:
  assumes "0 < t" "0 < T" "T < 100" "t \<le> 2 ^ 44"
  shows "(of_int T :: rat) * of_int t * (2 powi (- 52) + 2 powi (- 106)) + (2 powi (- 52) + 2 powi (- 106)) < 1"
proof -
  define z :: rat where "z = 2 powi (- 52) + 2 powi (- 106)"
  have z: "0 < z" "z \<le> 2 powi (- 51)" by (simp_all add: z_def)
  have "T * t \<le> 99 * 2 ^ 44" using assms mult_mono[of T 99 t "2 ^ 44"] by simp
  then have "(of_int (T * t) :: rat) \<le> of_int (99 * 2 ^ 44)" by (simp only: of_int_le_iff)
  then have Tt: "(of_int T :: rat) * of_int t \<le> 99 * 2 ^ 44" by simp
  have "0 \<le> (of_int T :: rat) * of_int t" using assms by simp
  then have "(of_int T :: rat) * of_int t * z \<le> 99 * 2 ^ 44 * 2 powi (- 51)"
    using Tt z by (intro mult_mono[of "of_int T * of_int t" "99 * 2 ^ 44" z "2 powi (- 51)"]) simp_all
  also have "\<dots> = 99 / 128" by simp
  finally have "(of_int T :: rat) * of_int t * z + z \<le> 99 / 128 + 2 powi (- 51)"
    using z(2) by linarith
  also have "\<dots> < 1" by simp
  finally show ?thesis by (simp add: z_def)
qed

lemma safe_imp_no_deficit:
  assumes "0 < t" "0 \<le> a" "a \<le> t" "0 < T" "T < 100" "t \<le> 2 ^ 44"
    and "of_int T \<le> percent a t"
  shows "T * t \<le> 100 * a"
proof (rule ccontr)
  assume "\<not> T * t \<le> 100 * a"
  then have "100 * a + 1 \<le> T * t" by simp
  then have "(of_int (100 * a + 1) :: rat) \<le> of_int (T * t)" by (simp only: of_int_le_iff)
  then have d: "100 * of_int a + 1 \<le> (of_int T :: rat) * of_int t" by simp
  define z :: rat where "z = 2 powi (- 52) + 2 powi (- 106)"
  define u :: rat where "u = 1 / of_int t"
  define E :: rat where "E = of_int a / of_int t * 100"
  have t0: "(0::rat) < of_int t" using assms(1) by simp
  have u0: "0 < u" using t0 by (simp add: u_def)
  have ut: "u * of_int t = 1" using t0 by (simp add: u_def)
  have z0: "0 < z" by (simp add: z_def)
  have "(100 * of_int a + 1) * u \<le> (of_int T :: rat) * of_int t * u"
    using d u0 by (intro mult_right_mono) simp_all
  then have E: "E \<le> of_int T - u" using ut by (simp add: E_def u_def algebra_simps)
  have "t \<le> 2 ^ 1022" using assms(6) by simp
  from percent_bounds(2)[OF assms(1-3) this] have "percent a t \<le> E * (1 + z)"
    by (simp add: E_def z_def)
  also have "\<dots> \<le> (of_int T - u) * (1 + z)" using E z0 by (intro mult_right_mono) simp_all
  also have "\<dots> < of_int T"
  proof -
    from target_product[OF assms(1,4,5,6)] have "(of_int T :: rat) * of_int t * z + z < 1"
      by (simp add: z_def)
    then have "((of_int T :: rat) * of_int t * z + z) * u < 1 * u"
      using u0 by (intro mult_strict_right_mono)
    then have "(of_int T :: rat) * z * (u * of_int t) + z * u < u" by (simp add: algebra_simps)
    then have "(of_int T :: rat) * z + z * u < u" by (simp only: ut mult_1_right)
    moreover have "0 < z * u" using z0 u0 by simp
    ultimately have "(of_int T :: rat) * z < u + u * z" by (simp add: algebra_simps)
    then show ?thesis by (simp add: algebra_simps)
  qed
  finally show False using assms(7) by simp
qed


lemma unsafe_imp_no_surplus:
  assumes "0 < t" "0 \<le> a" "a \<le> t" "0 < T" "T < 100" "t \<le> 2 ^ 44"
    and "percent a t < of_int T"
  shows "100 * a \<le> T * t"
proof (rule ccontr)
  assume "\<not> 100 * a \<le> T * t"
  then have "T * t + 1 \<le> 100 * a" by simp
  then have "(of_int (T * t + 1) :: rat) \<le> of_int (100 * a)" by (simp only: of_int_le_iff)
  then have d: "(of_int T :: rat) * of_int t + 1 \<le> 100 * of_int a" by simp
  define z :: rat where "z = 2 powi (- 52) + 2 powi (- 106)"
  define u :: rat where "u = 1 / of_int t"
  define E :: rat where "E = of_int a / of_int t * 100"
  have t0: "(0::rat) < of_int t" using assms(1) by simp
  have u0: "0 < u" using t0 by (simp add: u_def)
  have ut: "u * of_int t = 1" using t0 by (simp add: u_def)
  have z0: "0 < z" "z < 1" by (simp_all add: z_def)
  have "((of_int T :: rat) * of_int t + 1) * u \<le> 100 * of_int a * u"
    using d u0 by (intro mult_right_mono) simp_all
  then have E: "of_int T + u \<le> E" using ut by (simp add: E_def u_def algebra_simps)
  have "of_int T \<le> (of_int T + u) * (1 - z)"
  proof -
    from target_product[OF assms(1,4,5,6)] have "(of_int T :: rat) * of_int t * z + z < 1"
      by (simp add: z_def)
    then have "((of_int T :: rat) * of_int t * z + z) * u < 1 * u"
      using u0 by (intro mult_strict_right_mono)
    then have "(of_int T :: rat) * z * (u * of_int t) + z * u < u" by (simp add: algebra_simps)
    then have "(of_int T :: rat) * z + z * u < u" by (simp only: ut mult_1_right)
    then show ?thesis by (simp add: algebra_simps)
  qed
  also have "\<dots> \<le> E * (1 - z)" using E z0 by (intro mult_right_mono) simp_all
  also have "\<dots> \<le> percent a t"
  proof -
    have "t \<le> 2 ^ 1022" using assms(6) by simp
    from percent_bounds(1)[OF assms(1-3) this] show ?thesis by (simp add: E_def z_def)
  qed
  finally show False using assms(7) by simp
qed

lemma no_surplus_missable:
  assumes "0 < t" "0 \<le> a" "a \<le> t" "0 < T" "T < 100" "t \<le> 2 ^ 44"
    and "100 * a \<le> T * t"
  shows "missable T t a \<le> 1 / 2"
proof -
  define e :: rat where "e = 2 powi (- 53)"
  define p where "p = nearest (of_int T / 100)"
  define s where "s = nearest (p * of_int t)"
  define n where "n = nearest (of_int a - s)"
  note pr = target_ratio[OF assms(4,5), folded p_def e_def]
  have e0: "0 < e" "e < 1" by (simp_all add: e_def)
  have p0: "0 < p" using pr(1) pow2_pos[of "- 7"] by linarith
  have t1: "(1::rat) \<le> of_int t" using assms(1) by simp
  have a0: "(0::rat) \<le> of_int a" using assms(2) by simp
  have "(of_int (100 * a) :: rat) \<le> of_int (T * t)" using assms(7) by (simp only: of_int_le_iff)
  then have at: "(of_int a :: rat) \<le> of_int T / 100 * of_int t" by simp
  have "of_int a * (1 - e) \<le> of_int T / 100 * of_int t * (1 - e)"
    using at e0 by (intro mult_right_mono) simp_all
  also have "\<dots> = of_int T / 100 * (1 - e) * of_int t" by simp
  also have "\<dots> \<le> p * of_int t" using pr(3) t1 by (intro mult_right_mono) simp_all
  finally have pt: "of_int a * (1 - e) \<le> p * of_int t" .
  have "2 powi (- 7) * 1 \<le> p * of_int t" using pr(1) t1 p0 by (intro mult_mono) simp_all
  moreover have "(2::rat) powi (- 1022) \<le> 2 powi (- 7)" by (rule pow2_mono) simp
  ultimately have "2 powi (- 1022) \<le> p * of_int t" by simp
  from nearest_lower[OF this] have "p * of_int t * (1 - e) \<le> s" by (simp add: s_def e_def)
  moreover have "of_int a * (1 - e) * (1 - e) \<le> p * of_int t * (1 - e)"
    using pt e0 by (intro mult_right_mono) simp_all
  ultimately have "of_int a * (1 - e) * (1 - e) \<le> s" by linarith
  moreover have "of_int a * (1 - e) * (1 - e) = of_int a - 2 * e * of_int a + e * e * of_int a"
    by (simp add: algebra_simps)
  moreover have "0 \<le> e * e * of_int a" using e0 a0 by simp
  ultimately have "of_int a - s \<le> 2 * e * of_int a" by linarith
  also have "\<dots> \<le> 2 * e * 2 ^ 44"
  proof -
    have "(of_int a :: rat) \<le> of_int (2 ^ 44)" using assms(3,6) by (simp only: of_int_le_iff)
    then show ?thesis using e0 by simp
  qed
  also have "\<dots> = 2 powi (- 8)" by (simp add: e_def)
  finally have "n \<le> nearest (2 powi (- 8))" unfolding n_def by (rule nearest_mono)
  then have n: "n \<le> 2 powi (- 8)" using nearest_pow2[of "- 8"] by simp
  have "n / p \<le> 1 / 2"
  proof (cases "0 \<le> n")
    case True
    then have "n / p \<le> 2 powi (- 8) / 2 powi (- 7)" using n pr(1) by (intro frac_le) simp_all
    then show ?thesis by simp
  next
    case False
    then have "n / p \<le> 0" using p0 by (simp add: divide_le_0_iff)
    then show ?thesis by linarith
  qed
  then have "nearest (n / p) \<le> nearest (1 / 2)" by (rule nearest_mono)
  moreover have "nearest (1 / 2) = 1 / 2" using nearest_pow2[of "- 1"] by simp
  ultimately show ?thesis by (simp add: missable_def n_def s_def p_def)
qed

lemma compute_status:
  assumes "0 < totalClasses d" "attendedClasses d \<le> totalClasses d"
  shows "status (projr (compute d)) =
     (let cur = js_mul (js_div (num (attendedClasses d)) (num (totalClasses d))) (num 100)
      in if js_ge cur (num (targetPercentage d)) then Safe
         else if js_ge cur (js_sub (num (targetPercentage d)) (num 5)) then Warning
         else Danger)"
  using assms by (simp add: compute_def Let_def)

lemma compute_classesToBunk:
  assumes "0 < totalClasses d" "attendedClasses d \<le> totalClasses d"
  shows "classesToBunk (projr (compute d)) =
     Math_max (num 0) (Math_floor
       (js_div (js_sub (num (attendedClasses d))
                       (js_mul (js_div (num (targetPercentage d)) (num 100)) (num (totalClasses d))))
               (js_div (num (targetPercentage d)) (num 100))))"
  using assms by (simp add: compute_def Let_def)



section \<open>Validation\<close>

text \<open>
  C1 (as the code has it). The calculation is refused exactly when \<open>totalClasses\<close> is not
  positive or \<open>attendedClasses\<close> exceeds \<open>totalClasses\<close>; a negative \<open>attendedClasses\<close>
  and a \<open>targetPercentage\<close> outside \<open>(0, 100)\<close> are not checked. In particular every
  input that meets the three preconditions of the specification gives a result.
\<close>

theorem compute_fails_iff:
  "(compute d = Inl TotalNotPositive \<longleftrightarrow> totalClasses d \<le> 0) \<and>
   (compute d = Inl AttendedExceedsTotal \<longleftrightarrow>
      0 < totalClasses d \<and> totalClasses d < attendedClasses d) \<and>
   ((\<exists>r. compute d = Inr r) \<longleftrightarrow>
      0 < totalClasses d \<and> attendedClasses d \<le> totalClasses d)"
  by (auto simp: compute_def Let_def)

theorem compute_fails_iff_witness:
  "compute \<lparr>totalClasses = 5, attendedClasses = 10, targetPercentage = 75\<rparr> =
     Inl AttendedExceedsTotal \<and>
   (\<exists>r. compute \<lparr>totalClasses = 50, attendedClasses = 40, targetPercentage = 75\<rparr> = Inr r)"
  using compute_fails_iff[of "\<lparr>totalClasses = 5, attendedClasses = 10, targetPercentage = 75\<rparr>"]
    compute_fails_iff[of "\<lparr>totalClasses = 50, attendedClasses = 40, targetPercentage = 75\<rparr>"]
  by simp

text \<open>
  C1 as stated fails: a target of 100 (which the form's \<open>max="100"\<close> allows) is outside
  \<open>(0, 100)\<close>, and a negative number of attended classes is outside
  \<open>[0, totalClasses]\<close>; both are accepted and give a result. With the target 100 the
  division by \<open>100 - targetPercentage\<close> is a division by zero and the result holds
  \<open>Infinity\<close>.
\<close>

theorem compute_accepts_invalid:
  "compute \<lparr>totalClasses = 10, attendedClasses = 5, targetPercentage = 100\<rparr> =
     Inr \<lparr>currentPercentage = Finite 50, status = Danger, classesToAttend = PosInf,
          classesToBunk = Finite 0, message = Critical PosInf\<rparr> \<and>
   compute \<lparr>totalClasses = 10, attendedClasses = - 5, targetPercentage = 75\<rparr> =
     Inr \<lparr>currentPercentage = Finite (- 50), status = Danger, classesToAttend = Finite 50,
          classesToBunk = Finite 0, message = Critical (Finite 50)\<rparr>"
  by code_simp

text \<open>
  C9. When the validation fails, \<open>calculateAttendance\<close> only shows the "Invalid Input"
  toast: the stored result and the form data are what they were.
\<close>

theorem failed_calculation_keeps_result:
  assumes "totalClasses (data s) \<le> 0 \<or> totalClasses (data s) < attendedClasses (data s)"
  shows "result (calculateAttendance s) = result s \<and>
         data (calculateAttendance s) = data s \<and>
         isExportDialogOpen (calculateAttendance s) = isExportDialogOpen s \<and>
         (\<exists>e. compute (data s) = Inl e \<and>
              toasts (calculateAttendance s) = toasts s @ [InvalidInputToast e])"
  using assms by (auto simp: calculateAttendance_def compute_def Let_def)

theorem failed_calculation_keeps_result_witness:
  "result (calculateAttendance
     \<lparr>data = \<lparr>totalClasses = 5, attendedClasses = 10, targetPercentage = 75\<rparr>,
      result = Some \<lparr>currentPercentage = Finite 80, status = Safe,
                     classesToAttend = Finite 0, classesToBunk = Finite 3,
                     message = GreatAboveTarget (Finite 5) (Finite 3)\<rparr>,
      isExportDialogOpen = False, toasts = []\<rparr>) =
   Some \<lparr>currentPercentage = Finite 80, status = Safe,
         classesToAttend = Finite 0, classesToBunk = Finite 3,
         message = GreatAboveTarget (Finite 5) (Finite 3)\<rparr>"
  using failed_calculation_keeps_result[of
     "\<lparr>data = \<lparr>totalClasses = 5, attendedClasses = 10, targetPercentage = 75\<rparr>,
      result = Some \<lparr>currentPercentage = Finite 80, status = Safe,
                     classesToAttend = Finite 0, classesToBunk = Finite 3,
                     message = GreatAboveTarget (Finite 5) (Finite 3)\<rparr>,
      isExportDialogOpen = False, toasts = []\<rparr>"]
  by simp

section \<open>Status\<close>





section \<open>Classes that may be missed\<close>

text \<open>
  C3 fails on the code. With 4 classes held, 4 attended and a target of 80 the code
  answers that no class may be missed, and yet after one missed class the attendance
  is \<open>4 / 5 * 100 = 80\<close>, which meets the target: the answer plus one does not violate
  the inequality. The quotient \<open>targetPercentage / 100\<close> is rounded (0.8 is not a binary64
  number), \<open>(4 - 0.8 * 4) / 0.8\<close> evaluates to 0.9999999999999998, and
  \<open>Math.floor\<close> gives 0.
\<close>

theorem classesToBunk_not_maximal:
  "compute \<lparr>totalClasses = 4, attendedClasses = 4, targetPercentage = 80\<rparr> =
     Inr \<lparr>currentPercentage = Finite 100, status = Safe, classesToAttend = Finite 0,
          classesToBunk = Finite 0, message = GreatAboveTarget (Finite 20) (Finite 0)\<rparr> \<and>
   (80::rat) \<le> 4 / (4 + (0 + 1)) * 100"
  by code_simp

section \<open>Current percentage\<close>



section \<open>Future scenarios\<close>







section \<open>Classes to attend\<close>

text \<open>
  C2 (as the code has it). For a valid input with \<open>totalClasses \<le> 2\<^sup>4\<^sup>6\<close> the number of
  classes to attend is the closed form of the specification, and it is the smallest
  non-negative \<open>k\<close> with \<open>(attendedClasses + k) / (totalClasses + k) * 100 \<ge>
  targetPercentage\<close>: \<open>k\<close> satisfies the inequality, \<open>k - 1\<close> does not when \<open>k\<close> is
  positive, and every non-negative \<open>j\<close> that satisfies it is at least \<open>k\<close>.
\<close>

theorem classesToAttend_least:
  assumes "0 < totalClasses d" "0 \<le> attendedClasses d" "attendedClasses d \<le> totalClasses d"
    and "0 < targetPercentage d" "targetPercentage d < 100"
    and "totalClasses d \<le> 2 ^ 46"
  shows "\<exists>r k. compute d = Inr r \<and> classesToAttend r = num k \<and> 0 \<le> k \<and>
     k = max 0 \<lceil>of_int (targetPercentage d * totalClasses d - 100 * attendedClasses d)
                  / of_int (100 - targetPercentage d) :: rat\<rceil> \<and>
     (of_int (targetPercentage d) :: rat)
        \<le> of_int (attendedClasses d + k) / of_int (totalClasses d + k) * 100 \<and>
     (0 < k \<longrightarrow>
        \<not> (of_int (targetPercentage d) :: rat)
            \<le> of_int (attendedClasses d + (k - 1)) / of_int (totalClasses d + (k - 1)) * 100) \<and>
     (\<forall>j\<ge>0. (of_int (targetPercentage d) :: rat)
                \<le> of_int (attendedClasses d + j) / of_int (totalClasses d + j) * 100
             \<longrightarrow> k \<le> j)"
proof -
  define k where "k = max 0 \<lceil>of_int (targetPercentage d * totalClasses d - 100 * attendedClasses d)
                  / of_int (100 - targetPercentage d) :: rat\<rceil>"
  have k0: "0 \<le> k" by (simp add: k_def)
  note least = least_classes[OF assms(1,4,5), of _ "attendedClasses d", folded k_def]
  have "\<exists>r. compute d = Inr r \<and> classesToAttend r = num k"
    using assms(1,3) toAttend_exact[OF assms(1-6)]
    by (auto simp: compute_def Let_def k_def)
  moreover have "(of_int (targetPercentage d) :: rat)
        \<le> of_int (attendedClasses d + k) / of_int (totalClasses d + k) * 100"
    using least[OF k0] by simp
  moreover have "0 < k \<longrightarrow>
        \<not> (of_int (targetPercentage d) :: rat)
            \<le> of_int (attendedClasses d + (k - 1)) / of_int (totalClasses d + (k - 1)) * 100"
    using least[of "k - 1"] by auto
  moreover have "\<forall>j\<ge>0. (of_int (targetPercentage d) :: rat)
                \<le> of_int (attendedClasses d + j) / of_int (totalClasses d + j) * 100
             \<longrightarrow> k \<le> j"
    using least by blast
  ultimately show ?thesis using k0 k_def by blast
qed

theorem classesToAttend_least_witness:
  "\<exists>r. compute \<lparr>totalClasses = 50, attendedClasses = 30, targetPercentage = 75\<rparr> = Inr r \<and>
     classesToAttend r = num 30 \<and>
     (75 :: rat) \<le> (30 + 30) / (50 + 30) * 100 \<and>
     \<not> (75 :: rat) \<le> (30 + 29) / (50 + 29) * 100"
  using classesToAttend_least[of
    "\<lparr>totalClasses = 50, attendedClasses = 30, targetPercentage = 75\<rparr>"]
  by auto


text \<open>
  C2 as stated fails for large totals, where \<open>targetPercentage * totalClasses\<close> is not a
  binary64 number: with \<open>10\<^sup>1\<^sup>4 + 1\<close> classes held, one attended and a target of 97, the
  code answers 3233333333333332, one less than needed: the answer does not satisfy the
  inequality.
\<close>

lemma classesNeeded_big:
  "classesNeeded \<lparr>totalClasses = 100000000000001, attendedClasses = 1, targetPercentage = 97\<rparr> 97
     = Finite 3233333333333332"
  by code_simp

theorem classesToAttend_not_least:
  "compute \<lparr>totalClasses = 100000000000001, attendedClasses = 1, targetPercentage = 97\<rparr> =
     Inr (projr (compute
       \<lparr>totalClasses = 100000000000001, attendedClasses = 1, targetPercentage = 97\<rparr>)) \<and>
   classesToAttend (projr (compute
       \<lparr>totalClasses = 100000000000001, attendedClasses = 1, targetPercentage = 97\<rparr>)) =
     Finite 3233333333333332 \<and>
   \<not> (97 :: rat) \<le> (1 + 3233333333333332) / (100000000000001 + 3233333333333332) * 100"
  using compute_Inr[of
      "\<lparr>totalClasses = 100000000000001, attendedClasses = 1, targetPercentage = 97\<rparr>"]
    compute_classesToAttend[of
      "\<lparr>totalClasses = 100000000000001, attendedClasses = 1, targetPercentage = 97\<rparr>"]
    classesNeeded_big
  by simp



section \<open>Classes needed to reach a higher target\<close>

text \<open>
  C7 (as the code has it). For a valid input with \<open>totalClasses \<le> 2\<^sup>4\<^sup>6\<close> and every
  target \<open>T\<close> with \<open>targetPercentage < T < 100\<close>, the number of classes needed is
  \<open>max(0, ceil((T * totalClasses - 100 * attendedClasses) / (100 - T)))\<close>, the value
  \<open>classesToAttend\<close> has when the target is \<open>T\<close>. The insights are computed for the
  first two of the targets 80, 85, 90, 95 above \<open>targetPercentage\<close>, each with this
  number.
\<close>

theorem classesNeeded_closed_form:
  assumes "0 < totalClasses d" "0 \<le> attendedClasses d" "attendedClasses d \<le> totalClasses d"
    and "0 < targetPercentage d" "targetPercentage d < 100"
    and "totalClasses d \<le> 2 ^ 46"
  shows "(\<forall>T. targetPercentage d < T \<and> T < 100 \<longrightarrow>
            classesNeeded d T =
              num (max 0 \<lceil>of_int (T * totalClasses d - 100 * attendedClasses d)
                           / of_int (100 - T) :: rat\<rceil>) \<and>
            classesToAttend (projr (compute (d\<lparr>targetPercentage := T\<rparr>))) = classesNeeded d T) \<and>
         map insight_target (targetInsights d) =
           take 2 (filter (\<lambda>T. targetPercentage d < T) [80, 85, 90, 95]) \<and>
         (\<forall>i \<in> set (targetInsights d).
            insight_classes i =
              num (max 0 \<lceil>of_int (insight_target i * totalClasses d - 100 * attendedClasses d)
                           / of_int (100 - insight_target i) :: rat\<rceil>))"
proof (intro conjI allI impI ballI)
  fix T assume T: "targetPercentage d < T \<and> T < 100"
  then have T0: "0 < T" "T < 100" using assms(4) by simp_all
  show "classesNeeded d T =
          num (max 0 \<lceil>of_int (T * totalClasses d - 100 * attendedClasses d)
                       / of_int (100 - T) :: rat\<rceil>)"
    unfolding classesNeeded_def by (rule toAttend_exact[OF assms(1-3) T0 assms(6)])
  show "classesToAttend (projr (compute (d\<lparr>targetPercentage := T\<rparr>))) = classesNeeded d T"
    using assms(1,3) by (simp add: compute_def Let_def classesNeeded_def)
next
  show "map insight_target (targetInsights d) =
           take 2 (filter (\<lambda>T. targetPercentage d < T) [80, 85, 90, 95])"
    by (simp add: targetInsights_def customTargets_def Let_def comp_def)
next
  fix i assume "i \<in> set (targetInsights d)"
  then obtain T where T: "T \<in> set (take 2 (customTargets d))"
    and i: "insight_target i = T" "insight_classes i = classesNeeded d T"
    by (auto simp: targetInsights_def Let_def)
  from T customTargets_subset[of d] have "T \<in> {80, 85, 90, 95}" by blast
  then have T0: "0 < T" "T < 100" by auto
  show "insight_classes i =
              num (max 0 \<lceil>of_int (insight_target i * totalClasses d - 100 * attendedClasses d)
                           / of_int (100 - insight_target i) :: rat\<rceil>)"
    unfolding i classesNeeded_def by (rule toAttend_exact[OF assms(1-3) T0 assms(6)])
qed

theorem classesNeeded_closed_form_witness:
  "classesNeeded \<lparr>totalClasses = 50, attendedClasses = 30, targetPercentage = 75\<rparr> 80 = num 50 \<and>
   map insight_target
     (targetInsights \<lparr>totalClasses = 50, attendedClasses = 30, targetPercentage = 75\<rparr>) = [80, 85]"
  using classesNeeded_closed_form[of
    "\<lparr>totalClasses = 50, attendedClasses = 30, targetPercentage = 75\<rparr>"]
  by simp

text \<open>
  C7 as stated fails for large totals: with \<open>10\<^sup>1\<^sup>4 + 1\<close> classes held, none attended
  and a target of 90, the insight for 95 asks for 1900000000000020 classes, and the
  closed form is 1900000000000019 (\<open>95 * totalClasses\<close> is not a binary64 number).
\<close>

lemma classesNeeded_95:
  "classesNeeded \<lparr>totalClasses = 100000000000001, attendedClasses = 0, targetPercentage = 90\<rparr> 95
     = Finite 1900000000000020"
  by code_simp

theorem classesNeeded_not_closed_form:
  "targetInsights \<lparr>totalClasses = 100000000000001, attendedClasses = 0, targetPercentage = 90\<rparr> =
     [\<lparr>insight_target = 95, insight_classes = Finite 1900000000000020, insight_type = Info\<rparr>] \<and>
   max 0 \<lceil>of_int (95 * 100000000000001 - 100 * 0) / of_int (100 - 95) :: rat\<rceil>
     = 1900000000000019"
  using classesNeeded_95 by (simp add: targetInsights_def customTargets_def Let_def num_def)



section \<open>The two counters\<close>

text \<open>
  C10 (as the code has it). For a valid input with \<open>totalClasses \<le> 2\<^sup>4\<^sup>4\<close>: when the
  status is \<open>safe\<close> there is no class to attend, when it is \<open>warning\<close> or \<open>danger\<close>
  there is no class to miss, and so at most one of the two counters is positive.
\<close>

theorem counters_exclusive:
  assumes "0 < totalClasses d" "0 \<le> attendedClasses d" "attendedClasses d \<le> totalClasses d"
    and "0 < targetPercentage d" "targetPercentage d < 100"
    and "totalClasses d \<le> 2 ^ 44"
  shows "\<exists>r. compute d = Inr r \<and>
     (status r = Safe \<longrightarrow> classesToAttend r = num 0) \<and>
     (status r = Warning \<or> status r = Danger \<longrightarrow> classesToBunk r = num 0) \<and>
     (classesToAttend r = num 0 \<or> classesToBunk r = num 0)"
proof -
  let ?t = "totalClasses d" and ?a = "attendedClasses d" and ?T = "targetPercentage d"
  define k where "k = max 0 \<lceil>of_int (?T * ?t - 100 * ?a) / of_int (100 - ?T) :: rat\<rceil>"
  define m where "m = max 0 \<lfloor>missable ?T ?t ?a\<rfloor>"
  have t46: "?t \<le> 2 ^ 46" and big: "?t \<le> 2 ^ 1016" using assms(6) by simp_all
  note cur = js_percent[OF assms(1-3)]
  note ta = toAttend_exact[OF assms(1-5) t46, folded k_def]
  note tb = toBunk_finite[OF assms(1-5) big, folded m_def]
  have A: "k = 0" if "of_int ?T \<le> percent ?a ?t"
  proof -
    from safe_imp_no_deficit[OF assms that] have "?T * ?t - 100 * ?a \<le> 0" by simp
    then have "(of_int (?T * ?t - 100 * ?a) :: rat) \<le> 0" by (simp only: of_int_le_0_iff)
    moreover have "(0::rat) < of_int (100 - ?T)" using assms(5) by simp
    ultimately have "(of_int (?T * ?t - 100 * ?a) / of_int (100 - ?T) :: rat) \<le> 0"
      by (simp add: divide_le_0_iff)
    then have "\<lceil>of_int (?T * ?t - 100 * ?a) / of_int (100 - ?T) :: rat\<rceil> \<le> 0"
      by (simp add: ceiling_le_iff)
    then show ?thesis by (simp add: k_def)
  qed
  have B: "m = 0" if "\<not> of_int ?T \<le> percent ?a ?t"
  proof -
    from that have "percent ?a ?t < of_int ?T" by simp
    from unsafe_imp_no_surplus[OF assms this] have "100 * ?a \<le> ?T * ?t" .
    from no_surplus_missable[OF assms this] have "missable ?T ?t ?a < 1" by simp
    then have "\<lfloor>missable ?T ?t ?a\<rfloor> \<le> 0" by (simp add: floor_le_iff)
    then show ?thesis by (simp add: m_def)
  qed
  show ?thesis
    unfolding compute_def Let_def cur ta tb
    using assms(1,3) A B by (auto simp: num_def)
qed

theorem counters_exclusive_witness:
  "\<exists>r. compute \<lparr>totalClasses = 50, attendedClasses = 40, targetPercentage = 75\<rparr> = Inr r \<and>
     (status r = Safe \<longrightarrow> classesToAttend r = num 0) \<and>
     (status r = Warning \<or> status r = Danger \<longrightarrow> classesToBunk r = num 0) \<and>
     (classesToAttend r = num 0 \<or> classesToBunk r = num 0)"
  using counters_exclusive[of "\<lparr>totalClasses = 50, attendedClasses = 40, targetPercentage = 75\<rparr>"]
  by simp


text \<open>
  C10 as stated fails for large totals: with \<open>10\<^sup>1\<^sup>6\<close> classes held, all but one of
  \<open>8 * 10\<^sup>1\<^sup>5\<close> attended and a target of 80, the current percentage rounds to 80, so
  the status is \<open>safe\<close>, and there are 7 classes to attend.
\<close>

lemma percentage_rounds_up:
  "js_mul (js_div (num 7999999999999999) (num 10000000000000000)) (num 100) = Finite 80"
  by code_simp

lemma classesNeeded_7:
  "classesNeeded
     \<lparr>totalClasses = 10000000000000000, attendedClasses = 7999999999999999,
      targetPercentage = 80\<rparr> 80 = Finite 7"
  by code_simp

theorem safe_with_classes_to_attend:
  "compute \<lparr>totalClasses = 10000000000000000, attendedClasses = 7999999999999999,
            targetPercentage = 80\<rparr> =
     Inr (projr (compute \<lparr>totalClasses = 10000000000000000,
            attendedClasses = 7999999999999999, targetPercentage = 80\<rparr>)) \<and>
   status (projr (compute \<lparr>totalClasses = 10000000000000000,
            attendedClasses = 7999999999999999, targetPercentage = 80\<rparr>)) = Safe \<and>
   classesToAttend (projr (compute \<lparr>totalClasses = 10000000000000000,
            attendedClasses = 7999999999999999, targetPercentage = 80\<rparr>)) = Finite 7 \<and>
   Finite 7 \<noteq> num 0"
  using compute_Inr[of "\<lparr>totalClasses = 10000000000000000,
            attendedClasses = 7999999999999999, targetPercentage = 80\<rparr>"]
    compute_status[of "\<lparr>totalClasses = 10000000000000000,
            attendedClasses = 7999999999999999, targetPercentage = 80\<rparr>"]
    compute_classesToAttend[of "\<lparr>totalClasses = 10000000000000000,
            attendedClasses = 7999999999999999, targetPercentage = 80\<rparr>"]
    percentage_rounds_up classesNeeded_7
  by (simp add: num_def)



section \<open>Monotonicity in the target\<close>

text \<open>
  C5 (as the code has it). For fixed counts with \<open>totalClasses \<le> 2\<^sup>1\<^sup>0\<^sup>1\<^sup>6\<close> (no
  product overflows) and targets \<open>T1 < T2\<close> of \<open>(0, 100)\<close>, both counters are integers,
  the classes to attend at \<open>T2\<close> are at least those at \<open>T1\<close>, and the classes that may
  be missed at \<open>T2\<close> are at most those at \<open>T1\<close>: every operation of the two formulas
  is monotone, and so is the rounding.
\<close>

theorem target_monotone:
  assumes "0 < t" "0 \<le> a" "a \<le> t" "0 < T1" "T1 < T2" "T2 < 100" "t \<le> 2 ^ 1016"
  shows "\<exists>r1 r2 k1 k2 m1 m2.
     compute \<lparr>totalClasses = t, attendedClasses = a, targetPercentage = T1\<rparr> = Inr r1 \<and>
     compute \<lparr>totalClasses = t, attendedClasses = a, targetPercentage = T2\<rparr> = Inr r2 \<and>
     classesToAttend r1 = num k1 \<and> classesToAttend r2 = num k2 \<and> k1 \<le> k2 \<and>
     classesToBunk r1 = num m1 \<and> classesToBunk r2 = num m2 \<and> m2 \<le> m1"
proof -
  have T1: "T1 < 100" and T2: "0 < T2" and le: "T1 \<le> T2" and t0: "0 \<le> t"
    using assms by simp_all
  let ?d1 = "\<lparr>totalClasses = t, attendedClasses = a, targetPercentage = T1\<rparr>"
  let ?d2 = "\<lparr>totalClasses = t, attendedClasses = a, targetPercentage = T2\<rparr>"
  note a1 = toAttend_finite[OF assms(1-4) T1 assms(7)]
  note a2 = toAttend_finite[OF assms(1-3) T2 assms(6,7)]
  note b1 = toBunk_finite[OF assms(1-4) T1 assms(7)]
  note b2 = toBunk_finite[OF assms(1-3) T2 assms(6,7)]
  have 1: "compute ?d1 = Inr (projr (compute ?d1))" "compute ?d2 = Inr (projr (compute ?d2))"
    using assms(1,3) by (intro compute_Inr; simp)+
  have 2: "classesToAttend (projr (compute ?d1)) = num (max 0 \<lceil>attendable T1 t a\<rceil>)"
    "classesToAttend (projr (compute ?d2)) = num (max 0 \<lceil>attendable T2 t a\<rceil>)"
    using assms(1,3) a1 a2 by (simp_all add: compute_classesToAttend classesNeeded_def)
  have 3: "classesToBunk (projr (compute ?d1)) = num (max 0 \<lfloor>missable T1 t a\<rfloor>)"
    "classesToBunk (projr (compute ?d2)) = num (max 0 \<lfloor>missable T2 t a\<rfloor>)"
    using assms(1,3) b1 b2 by (simp_all add: compute_classesToBunk)
  from 1 2 3 attendable_mono[OF assms(4) le assms(6) t0, of a]
    missable_mono[OF assms(4) le assms(6) t0, of a]
  show ?thesis by blast
qed


theorem target_monotone_witness:
  "\<exists>r1 r2 k1 k2 m1 m2.
     compute \<lparr>totalClasses = 50, attendedClasses = 40, targetPercentage = 60\<rparr> = Inr r1 \<and>
     compute \<lparr>totalClasses = 50, attendedClasses = 40, targetPercentage = 75\<rparr> = Inr r2 \<and>
     classesToAttend r1 = num k1 \<and> classesToAttend r2 = num k2 \<and> k1 \<le> k2 \<and>
     classesToBunk r1 = num m1 \<and> classesToBunk r2 = num m2 \<and> m2 \<le> m1"
  using target_monotone[of 50 40 60 75] by simp

text \<open>
  C5 as stated fails where the products overflow: with \<open>2\<^sup>1\<^sup>0\<^sup>2\<^sup>0\<close> classes held and
  attended, \<open>100 * attendedClasses\<close> is \<open>Infinity\<close>; at the target 1 the classes to
  attend are \<open>max(0, -Infinity) = 0\<close>, at the target 99 they are
  \<open>Infinity - Infinity = NaN\<close>, and \<open>NaN >= 0\<close> is false.
\<close>

lemma overflow_low:
  "classesNeeded \<lparr>totalClasses = 2 ^ 1020, attendedClasses = 2 ^ 1020, targetPercentage = 1\<rparr> 1
     = Finite 0"
proof -
  have 1: "round64 (2 ^ 1020) = Finite (2 ^ 1020)"
    using round64_finite_big[of "2 powi 1020"] nearest_pow2[of 1020] by simp
  have "(2::rat) powi 1024 \<le> 100 * 2 ^ 1020" by simp
  then have 2: "round64 (100 * 2 ^ 1020) = PosInf" by (rule round64_overflow)
  have 3: "js_sub (num 100) (num 1) = num 99" using js_sub_int[of 100 1] by simp
  show ?thesis
    unfolding classesNeeded_def using 1 2 3 by (simp add: num_def)
qed

lemma overflow_high:
  "classesNeeded \<lparr>totalClasses = 2 ^ 1020, attendedClasses = 2 ^ 1020, targetPercentage = 99\<rparr> 99
     = NaN"
proof -
  have "(2::rat) powi 1024 \<le> 99 * 2 ^ 1020" by simp
  then have 1: "round64 (99 * 2 ^ 1020) = PosInf" by (rule round64_overflow)
  have "(2::rat) powi 1024 \<le> 100 * 2 ^ 1020" by simp
  then have 2: "round64 (100 * 2 ^ 1020) = PosInf" by (rule round64_overflow)
  show ?thesis
    unfolding classesNeeded_def using 1 2 by (simp add: num_def)
qed

theorem target_not_monotone:
  "compute \<lparr>totalClasses = 2 ^ 1020, attendedClasses = 2 ^ 1020, targetPercentage = 1\<rparr> =
     Inr (projr (compute
       \<lparr>totalClasses = 2 ^ 1020, attendedClasses = 2 ^ 1020, targetPercentage = 1\<rparr>)) \<and>
   compute \<lparr>totalClasses = 2 ^ 1020, attendedClasses = 2 ^ 1020, targetPercentage = 99\<rparr> =
     Inr (projr (compute
       \<lparr>totalClasses = 2 ^ 1020, attendedClasses = 2 ^ 1020, targetPercentage = 99\<rparr>)) \<and>
   classesToAttend (projr (compute
       \<lparr>totalClasses = 2 ^ 1020, attendedClasses = 2 ^ 1020, targetPercentage = 1\<rparr>)) = Finite 0 \<and>
   classesToAttend (projr (compute
       \<lparr>totalClasses = 2 ^ 1020, attendedClasses = 2 ^ 1020, targetPercentage = 99\<rparr>)) = NaN \<and>
   \<not> js_ge NaN (Finite 0)"
  using overflow_low overflow_high
    compute_Inr[of "\<lparr>totalClasses = 2 ^ 1020, attendedClasses = 2 ^ 1020, targetPercentage = 1\<rparr>"]
    compute_Inr[of "\<lparr>totalClasses = 2 ^ 1020, attendedClasses = 2 ^ 1020, targetPercentage = 99\<rparr>"]
  by (simp add: compute_classesToAttend)


end
